theory Spec2Isabelle
  imports Complex_Main "HOL-Library.Char_ord" "HOL-Library.List_Lexorder"
begin

section \<open>Strings and the two line patterns\<close>

text \<open>
  A \<open>QString\<close> is modelled as a HOL \<open>string\<close>. \<open>QString::operator<\<close> compares
  code units lexicographically; on \<open>string\<close> that is the lexicographic order of
  \<open>List_Lexorder\<close> over the character order of \<open>Char_ord\<close>. The patterns of
  \<open>parseDotFile\<close> name ASCII characters only.
\<close>

abbreviation dquote :: char where
  "dquote \<equiv> CHR 0x22"

abbreviation newline :: char where
  "newline \<equiv> CHR 0x0A"

text \<open>\<open>QString::right(n)\<close>: the rightmost \<open>n\<close> characters, the whole string when it is shorter.\<close>

definition right :: "nat \<Rightarrow> string \<Rightarrow> string" where
  "right n s = drop (length s - n) s"

text \<open>
  \<open>content.split('\n')\<close> with the default \<open>Qt::KeepEmptyParts\<close>: the pieces between
  the newlines, empty pieces included; the empty text gives one empty line.
\<close>

fun split_lines :: "string \<Rightarrow> string list" where
  "split_lines [] = [[]]"
| "split_lines (c # cs) =
     (if c = newline then [] # split_lines cs
      else (case split_lines cs of
              [] \<Rightarrow> [[c]]
            | l # ls \<Rightarrow> (c # l) # ls))"

text \<open>The class \<open>\s\<close> of PCRE2 without the Unicode-properties option: space, HT, LF, VT, FF, CR.\<close>

definition is_space :: "char \<Rightarrow> bool" where
  "is_space c \<longleftrightarrow>
     c = CHR 0x20 \<or> c = CHR 0x09 \<or> c = CHR 0x0A \<or> c = CHR 0x0B \<or> c = CHR 0x0C \<or> c = CHR 0x0D"

text \<open>
  The fragment \<open>"([^"]+)"\<close> matched at the head of a text: the captured run and the text
  after the closing quote. The greedy run stops at the first quote, and no shorter run can
  be followed by a quote, so backtracking finds nothing else.
\<close>

definition quoted :: "string \<Rightarrow> (string \<times> string) option" where
  "quoted s =
     (case s of
        [] \<Rightarrow> None
      | c # cs \<Rightarrow>
          if c = dquote then
            (let run = takeWhile (\<lambda>x. x \<noteq> dquote) cs;
                 rest = dropWhile (\<lambda>x. x \<noteq> dquote) cs
             in if run = [] \<or> rest = [] then None else Some (run, tl rest))
          else None)"

text \<open>A literal piece of a pattern matched at the head of a text: the text after it.\<close>

fun literal :: "string \<Rightarrow> string \<Rightarrow> string option" where
  "literal [] s = Some s"
| "literal (p # ps) [] = None"
| "literal (p # ps) (c # cs) = (if p = c then literal ps cs else None)"

text \<open>
  \<open>\s*\<close> followed by a character that is not white space: the greedy run of white
  space is the only one that can be followed by the next piece of the pattern.
\<close>

definition skip_space :: "string \<Rightarrow> string" where
  "skip_space s = dropWhile is_space s"

text \<open>
  \<open>nodeRegex\<close>, \<open>"([^"]+)"\s*\[label="([^"]+)"\]\<close>, anchored at the head of a text:
  the captures 1 and 2.
\<close>

definition nodeRegex_at :: "string \<Rightarrow> (string \<times> string) option" where
  "nodeRegex_at s =
     (case quoted s of
        None \<Rightarrow> None
      | Some (ident, r1) \<Rightarrow>
          (case literal ''[label='' (skip_space r1) of
             None \<Rightarrow> None
           | Some r2 \<Rightarrow>
               (case quoted r2 of
                  None \<Rightarrow> None
                | Some (label, r3) \<Rightarrow>
                    (case literal '']'' r3 of
                       None \<Rightarrow> None
                     | Some r4 \<Rightarrow> Some (ident, label)))))"

text \<open>
  \<open>edgeRegex\<close>, \<open>"([^"]+)"\s*->\s*"([^"]+)"\<close>, anchored at the head of a text:
  the captures 1 and 2.
\<close>

definition edgeRegex_at :: "string \<Rightarrow> (string \<times> string) option" where
  "edgeRegex_at s =
     (case quoted s of
        None \<Rightarrow> None
      | Some (src, r1) \<Rightarrow>
          (case literal ''->'' (skip_space r1) of
             None \<Rightarrow> None
           | Some r2 \<Rightarrow>
               (case quoted (skip_space r2) of
                  None \<Rightarrow> None
                | Some (dst, r3) \<Rightarrow> Some (src, dst))))"

text \<open>
  \<open>QRegularExpression::match(line)\<close> searches: the match at the leftmost offset at which
  the pattern matches, \<open>None\<close> for \<open>hasMatch() = false\<close>.
\<close>

fun regex_match :: "(string \<Rightarrow> 'a option) \<Rightarrow> string \<Rightarrow> 'a option" where
  "regex_match pat [] = pat []"
| "regex_match pat (c # cs) =
     (case pat (c # cs) of
        Some r \<Rightarrow> Some r
      | None \<Rightarrow> regex_match pat cs)"

definition nodeRegex_match :: "string \<Rightarrow> (string \<times> string) option" where
  "nodeRegex_match line = regex_match nodeRegex_at line"

definition edgeRegex_match :: "string \<Rightarrow> (string \<times> string) option" where
  "edgeRegex_match line = regex_match edgeRegex_at line"

section \<open>The scene and the view\<close>

type_synonym point = "real \<times> real"

text \<open>
  The items of the \<open>QGraphicsScene\<close>. An ellipse item carries its position and the text
  of its child text item; a line item its two end points; the polygon item of an arrow
  head its tip (the two back corners come from floating-point trigonometry and are left
  out); a text item that is not a child of a node is the placeholder message.
\<close>

datatype item =
    EllipseItem point string
  | LineItem point point
  | PolygonItem point
  | TextItem string

text \<open>\<open>QGraphicsItem::pos()\<close>; only ellipse items are ever moved from the default.\<close>

fun pos :: "item \<Rightarrow> point" where
  "pos (EllipseItem p t) = p"
| "pos (LineItem a b) = (0, 0)"
| "pos (PolygonItem a) = (0, 0)"
| "pos (TextItem t) = (0, 0)"

fun setPos :: "point \<Rightarrow> item \<Rightarrow> item" where
  "setPos p (EllipseItem p0 t) = EllipseItem p t"
| "setPos p (LineItem a b) = LineItem a b"
| "setPos p (PolygonItem a) = PolygonItem a"
| "setPos p (TextItem t) = TextItem t"

fun is_ellipse :: "item \<Rightarrow> bool" where
  "is_ellipse (EllipseItem p t) = True"
| "is_ellipse other = False"

fun is_line :: "item \<Rightarrow> bool" where
  "is_line (LineItem a b) = True"
| "is_line other = False"

fun is_text :: "item \<Rightarrow> bool" where
  "is_text (TextItem t) = True"
| "is_text other = False"

fun text_of :: "item \<Rightarrow> string option" where
  "text_of (EllipseItem p t) = Some t"
| "text_of (TextItem t) = Some t"
| "text_of other = None"

text \<open>
  The members of \<open>GraphView\<close>. \<open>m_scene\<close> is the store of items in the order they were
  added, and a pointer to an item is its index there. \<open>m_nodes\<close> is the
  \<open>QMap<QString, QGraphicsEllipseItem*>\<close>: an association list kept in ascending key
  order, which is the order a \<open>QMap\<close> iterates in. A pointer in \<open>m_nodes\<close> is the index
  \<open>createNode\<close> gave the item, so in every view reached from the constructor it is in
  range and points to an ellipse item. Of the inherited \<open>QGraphicsView\<close> the model keeps
  the two scale factors of the view transform and the margin by which the last
  \<open>setSceneRect\<close> widened the bounding rectangle of the items.
\<close>

record GraphView =
  m_scene :: "item list"
  m_nodes :: "(string \<times> nat) list"
  m_placeholderText :: "nat option"
  sceneRect_margin :: real
  m11 :: real
  m22 :: real

definition NODE_WIDTH :: real where
  "NODE_WIDTH = 150"

definition NODE_HEIGHT :: real where
  "NODE_HEIGHT = 40"

definition NODE_SPACING_X :: real where
  "NODE_SPACING_X = 200"

definition NODE_SPACING_Y :: real where
  "NODE_SPACING_Y = 80"

text \<open>\<open>QMap::insert\<close> (and \<open>operator[]\<close> followed by an assignment): keys stay ascending and unique.\<close>

fun qmap_insert :: "string \<Rightarrow> 'v \<Rightarrow> (string \<times> 'v) list \<Rightarrow> (string \<times> 'v) list" where
  "qmap_insert k v [] = [(k, v)]"
| "qmap_insert k v ((k', v') # m) =
     (if k < k' then (k, v) # (k', v') # m
      else if k = k' then (k, v) # m
      else (k', v') # qmap_insert k v m)"

text \<open>\<open>QGraphicsView::setSceneRect\<close> on the items' bounding rectangle widened by a margin.\<close>

definition setSceneRect :: "real \<Rightarrow> GraphView \<Rightarrow> GraphView" where
  "setSceneRect margin v = v\<lparr>sceneRect_margin := margin\<rparr>"

text \<open>\<open>QGraphicsView::scale(sx, sy)\<close> multiplies the scale factors of the view transform.\<close>

definition scale :: "real \<Rightarrow> real \<Rightarrow> GraphView \<Rightarrow> GraphView" where
  "scale sx sy v = v\<lparr>m11 := m11 v * sx, m22 := m22 v * sy\<rparr>"

text \<open>
  \<open>QGraphicsView::fitInView(rect, Qt::KeepAspectRatio)\<close> replaces the scale of the view by
  the one ratio that fits the rectangle in the viewport. The ratio depends on the widget's
  size and on font metrics, which are Qt's; it is the parameter \<open>fit\<close>, a function of the
  items of the scene.
\<close>

definition fitInView :: "(item list \<Rightarrow> real) \<Rightarrow> GraphView \<Rightarrow> GraphView" where
  "fitInView fit v = v\<lparr>m11 := fit (m_scene v), m22 := fit (m_scene v)\<rparr>"

section \<open>GraphView\<close>

definition clear :: "GraphView \<Rightarrow> GraphView" where
  "clear v = v\<lparr>m_scene := [], m_nodes := [], m_placeholderText := None\<rparr>"

definition showPlaceholder :: "string \<Rightarrow> GraphView \<Rightarrow> GraphView" where
  "showPlaceholder message v =
     (let v1 = clear v;
          v2 = v1\<lparr>m_scene := m_scene v1 @ [TextItem message],
                  m_placeholderText := Some (length (m_scene v1))\<rparr>
      in setSceneRect 100 v2)"

text \<open>Lines 128 to 132 of \<open>createNode\<close>: the text shown for a label.\<close>

definition displayLabel :: "string \<Rightarrow> string" where
  "displayLabel label =
     (if length label > 20 then ''...'' @ right 20 label else label)"

text \<open>\<open>createNode\<close> returns the pointer to the node together with the new state.\<close>

definition createNode :: "string \<Rightarrow> string \<Rightarrow> GraphView \<Rightarrow> nat \<times> GraphView" where
  "createNode ident label v =
     (case map_of (m_nodes v) ident of
        Some node \<Rightarrow> (node, v)
      | None \<Rightarrow>
          (let node = length (m_scene v)
           in (node, v\<lparr>m_scene := m_scene v @ [EllipseItem (0, 0) (displayLabel label)],
                       m_nodes := qmap_insert ident node (m_nodes v)\<rparr>)))"

definition createEdge :: "string \<Rightarrow> string \<Rightarrow> GraphView \<Rightarrow> GraphView" where
  "createEdge src dst v =
     (case map_of (m_nodes v) src of
        None \<Rightarrow> v
      | Some fromNode \<Rightarrow>
          (case map_of (m_nodes v) dst of
             None \<Rightarrow> v
           | Some toNode \<Rightarrow>
               (let fromPos = pos (m_scene v ! fromNode);
                    toPos = pos (m_scene v ! toNode);
                    fromCenter = (fst fromPos + NODE_WIDTH / 2, snd fromPos + NODE_HEIGHT);
                    toCenter = (fst toPos + NODE_WIDTH / 2, snd toPos)
                in v\<lparr>m_scene := m_scene v @ [LineItem fromCenter toCenter, PolygonItem toCenter]\<rparr>)))"

text \<open>
  The loop of \<open>layoutGraph\<close> over \<open>m_nodes\<close>, with its counters \<open>row\<close> and \<open>col\<close> and
  \<open>maxCols = 5\<close>. The counters are C++ \<open>int\<close>s that stay below the number of nodes, far
  from overflow, and are integers here; the products with the \<open>qreal\<close> spacings are exact.
\<close>

fun layout_loop :: "(string \<times> nat) list \<Rightarrow> int \<Rightarrow> int \<Rightarrow> item list \<Rightarrow> item list" where
  "layout_loop [] row col scene = scene"
| "layout_loop ((k, node) # rest) row col scene =
     (let scene' = scene[node := setPos (of_int col * NODE_SPACING_X, of_int row * NODE_SPACING_Y)
                                        (scene ! node)];
          col' = col + 1
      in if col' \<ge> 5 then layout_loop rest (row + 1) 0 scene'
         else layout_loop rest row col' scene')"

definition layoutGraph :: "GraphView \<Rightarrow> GraphView" where
  "layoutGraph v =
     (if m_nodes v = [] then v
      else v\<lparr>m_scene := layout_loop (m_nodes v) 0 0 (m_scene v)\<rparr>)"

text \<open>The body of the loop over the lines: the view and the list \<open>edges\<close>.\<close>

definition parse_line ::
  "string \<Rightarrow> GraphView \<times> (string \<times> string) list \<Rightarrow> GraphView \<times> (string \<times> string) list" where
  "parse_line line s =
     (case nodeRegex_match line of
        Some (ident, label) \<Rightarrow> (snd (createNode ident label (fst s)), snd s)
      | None \<Rightarrow>
          (case edgeRegex_match line of
             Some (src, dst) \<Rightarrow> (fst s, snd s @ [(src, dst)])
           | None \<Rightarrow> s))"

fun parse_lines ::
  "string list \<Rightarrow> GraphView \<times> (string \<times> string) list \<Rightarrow> GraphView \<times> (string \<times> string) list" where
  "parse_lines [] s = s"
| "parse_lines (line # lines) s = parse_lines lines (parse_line line s)"

fun create_edges :: "(string \<times> string) list \<Rightarrow> GraphView \<Rightarrow> GraphView" where
  "create_edges [] v = v"
| "create_edges (edge # edges) v = create_edges edges (createEdge (fst edge) (snd edge) v)"

definition parseDotFile :: "(item list \<Rightarrow> real) \<Rightarrow> string \<Rightarrow> GraphView \<Rightarrow> GraphView" where
  "parseDotFile fit content v =
     (let s = parse_lines (split_lines content) (clear v, []);
          v3 = layoutGraph (fst s);
          v4 = create_edges (snd s) v3
      in if m_nodes v4 \<noteq> []
         then scale 0.9 0.9 (fitInView fit (setSceneRect 50 v4))
         else showPlaceholder ''No nodes found in the call graph'' v4)"

text \<open>
  The files \<open>QFile\<close> sees: the text of each file that can be opened for reading, and the
  list of the paths on which \<open>open\<close> was called.
\<close>

record file_system =
  fs_text :: "string \<Rightarrow> string option"
  fs_opened :: "string list"

definition QFile_open :: "string \<Rightarrow> file_system \<Rightarrow> string option \<times> file_system" where
  "QFile_open path fs = (fs_text fs path, fs\<lparr>fs_opened := fs_opened fs @ [path]\<rparr>)"

definition loadDotFile ::
  "(item list \<Rightarrow> real) \<Rightarrow> string \<Rightarrow> file_system \<times> GraphView \<Rightarrow> file_system \<times> GraphView" where
  "loadDotFile fit filePath w =
     (case QFile_open filePath (fst w) of
        (None, fs') \<Rightarrow>
          (fs', showPlaceholder (''Failed to open output file:\<newline>'' @ filePath) (snd w))
      | (Some content, fs') \<Rightarrow> (fs', parseDotFile fit content (snd w)))"


text \<open>The constructor: an empty scene, the identity transform, then the first placeholder.\<close>

definition GraphView_new :: GraphView where
  "GraphView_new =
     showPlaceholder ''Select a folder and click 'Run Analysis'\<newline>to visualize the call graph''
       \<lparr>m_scene = [], m_nodes = [], m_placeholderText = None,
        sceneRect_margin = 0, m11 = 1, m22 = 1\<rparr>"

section \<open>Reading a text and a view\<close>

text \<open>
  The node declarations of a text are the captures of the lines on which \<open>nodeRegex\<close>
  matches, in the order of the lines. The edge declarations are the captures of
  \<open>edgeRegex\<close> on the lines on which \<open>nodeRegex\<close> does not match: the loop tries the node
  pattern first and goes on to the next line when it matches.
\<close>

definition node_decls :: "string \<Rightarrow> (string \<times> string) list" where
  "node_decls content = List.map_filter nodeRegex_match (split_lines content)"

definition line_edge :: "string \<Rightarrow> (string \<times> string) option" where
  "line_edge line =
     (case nodeRegex_match line of
        Some n \<Rightarrow> None
      | None \<Rightarrow> edgeRegex_match line)"

definition edge_decls :: "string \<Rightarrow> (string \<times> string) list" where
  "edge_decls content = List.map_filter line_edge (split_lines content)"

text \<open>The position and the text of the node an identifier is mapped to.\<close>

definition node_pos :: "GraphView \<Rightarrow> string \<Rightarrow> point option" where
  "node_pos v ident = map_option (\<lambda>node. pos (m_scene v ! node)) (map_of (m_nodes v) ident)"

definition node_text :: "GraphView \<Rightarrow> string \<Rightarrow> string option" where
  "node_text v ident = Option.bind (map_of (m_nodes v) ident) (\<lambda>node. text_of (m_scene v ! node))"

text \<open>
  The two states of the scene. In the placeholder state there is no node and the scene
  holds the message and nothing else; in the graph state there is at least one node, every
  node is an ellipse item of the scene, and the scene holds no message.
\<close>

definition placeholder_state :: "GraphView \<Rightarrow> bool" where
  "placeholder_state v \<longleftrightarrow>
     m_nodes v = [] \<and> m_placeholderText v = Some 0 \<and>
     length (m_scene v) = 1 \<and> list_all is_text (m_scene v)"

definition graph_state :: "GraphView \<Rightarrow> bool" where
  "graph_state v \<longleftrightarrow>
     m_nodes v \<noteq> [] \<and> m_placeholderText v = None \<and>
     list_all (\<lambda>x. \<not> is_text x) (m_scene v) \<and>
     list_all (\<lambda>e. snd e < length (m_scene v) \<and> is_ellipse (m_scene v ! snd e)) (m_nodes v)"

section \<open>Auxiliary notions of the proofs\<close>

text \<open>The calls of \<open>createNode\<close> that the loop over the lines makes, one for each node declaration.\<close>

definition create_nodes :: "(string \<times> string) list \<Rightarrow> GraphView \<Rightarrow> GraphView" where
  "create_nodes ds v = fold (\<lambda>d u. snd (createNode (fst d) (snd d) u)) ds v"

text \<open>\<open>parseDotFile\<close> up to the last loop, before the view is fitted or the placeholder shown.\<close>

definition parse_core :: "string \<Rightarrow> GraphView \<Rightarrow> GraphView" where
  "parse_core content v =
     create_edges (edge_decls content) (layoutGraph (create_nodes (node_decls content) (clear v)))"

text \<open>The cell of the grid with the number \<open>k\<close>, five cells to a row.\<close>

definition grid :: "nat \<Rightarrow> point" where
  "grid k = (real (k mod 5) * 200, real (k div 5) * 80)"

text \<open>
  What holds of the view while the nodes are created and before they are laid out, for the
  map \<open>D\<close> from the identifiers declared so far to their first labels: the keys of
  \<open>m_nodes\<close> ascend strictly and are the identifiers of \<open>D\<close>, the pointers differ from
  one another, and each points to an ellipse item at the origin that shows the first label.
\<close>

definition nodes_wf :: "GraphView \<Rightarrow> (string \<Rightarrow> string option) \<Rightarrow> bool" where
  "nodes_wf v D \<longleftrightarrow>
     sorted_wrt (<) (map fst (m_nodes v)) \<and>
     fst ` set (m_nodes v) = dom D \<and>
     distinct (map snd (m_nodes v)) \<and>
     m_placeholderText v = None \<and>
     (\<forall>x \<in> set (m_scene v). is_ellipse x) \<and>
     (\<forall>e \<in> set (m_nodes v). snd e < length (m_scene v) \<and>
        m_scene v ! snd e = EllipseItem (0, 0) (displayLabel (the (D (fst e)))))"

section \<open>The matcher and the patterns\<close>

text \<open>
  The functions that match a pattern at the head of a text succeed exactly on the texts
  that begin with a word of the pattern, and return its captures; a search returns the
  match at the least offset that has one.
\<close>

lemma quoted_iff:
  "quoted s = Some (run, rest) \<longleftrightarrow>
     run \<noteq> [] \<and> dquote \<notin> set run \<and> s = dquote # run @ dquote # rest"
proof
  assume q: "quoted s = Some (run, rest)"
  then obtain cs where s: "s = dquote # cs"
    by (cases s) (auto simp: quoted_def split: if_splits)
  let ?d = "dropWhile (\<lambda>x. x \<noteq> dquote) cs"
  from q s have run: "run = takeWhile (\<lambda>x. x \<noteq> dquote) cs" and ne: "run \<noteq> []"
    and d: "?d \<noteq> []" and rest: "rest = tl ?d"
    by (auto simp: quoted_def Let_def split: if_splits)
  have "hd ?d = dquote" using d hd_dropWhile [of "\<lambda>x. x \<noteq> dquote" cs] by auto
  then have "?d = dquote # rest" using d rest by (cases ?d) auto
  then have "cs = run @ dquote # rest"
    using takeWhile_dropWhile_id [of "\<lambda>x. x \<noteq> dquote" cs] run by simp
  moreover have "dquote \<notin> set run"
    using run by (metis (full_types) set_takeWhileD)
  ultimately show "run \<noteq> [] \<and> dquote \<notin> set run \<and> s = dquote # run @ dquote # rest"
    using ne s by simp
next
  assume a: "run \<noteq> [] \<and> dquote \<notin> set run \<and> s = dquote # run @ dquote # rest"
  then have all: "\<forall>x \<in> set run. x \<noteq> dquote" by auto
  have t: "takeWhile (\<lambda>x. x \<noteq> dquote) (run @ dquote # rest) = run"
    using all by (simp add: takeWhile_append2)
  have d: "dropWhile (\<lambda>x. x \<noteq> dquote) (run @ dquote # rest) = dquote # rest"
    using all by (simp add: dropWhile_append2)
  show "quoted s = Some (run, rest)"
    using a by (simp add: quoted_def t d)
qed

lemma literal_iff: "literal p s = Some rest \<longleftrightarrow> s = p @ rest"
  by (induction p s rule: literal.induct) auto

lemma skip_space_literal_iff:
  assumes "p \<noteq> []" and "\<not> is_space (hd p)"
  shows "literal p (skip_space s) = Some rest \<longleftrightarrow>
         (\<exists>ws. (\<forall>c \<in> set ws. is_space c) \<and> s = ws @ p @ rest)"
proof
  assume "literal p (skip_space s) = Some rest"
  then have "dropWhile is_space s = p @ rest" by (simp add: literal_iff skip_space_def)
  then have "s = takeWhile is_space s @ p @ rest"
    using takeWhile_dropWhile_id [of is_space s] by simp
  moreover have "\<forall>c \<in> set (takeWhile is_space s). is_space c"
    by (auto dest: set_takeWhileD)
  ultimately show "\<exists>ws. (\<forall>c \<in> set ws. is_space c) \<and> s = ws @ p @ rest" by blast
next
  assume "\<exists>ws. (\<forall>c \<in> set ws. is_space c) \<and> s = ws @ p @ rest"
  then obtain ws where ws: "\<forall>c \<in> set ws. is_space c" "s = ws @ p @ rest" by blast
  have "dropWhile is_space (p @ rest) = p @ rest"
    using assms by (cases p) auto
  then have "dropWhile is_space s = p @ rest"
    using ws by (simp add: dropWhile_append2)
  then show "literal p (skip_space s) = Some rest"
    by (simp add: literal_iff skip_space_def)
qed

lemma nodeRegex_at_iff:
  "nodeRegex_at s = Some (ident, label) \<longleftrightarrow>
     (\<exists>ws rest. ident \<noteq> [] \<and> dquote \<notin> set ident \<and> (\<forall>c \<in> set ws. is_space c) \<and>
        label \<noteq> [] \<and> dquote \<notin> set label \<and>
        s = dquote # ident @ dquote # ws @ ''[label='' @ dquote # label @ dquote # '']'' @ rest)"
  (is "?L \<longleftrightarrow> ?R")
proof
  assume ?L
  then obtain r1 r2 r3 r4 where
    1: "quoted s = Some (ident, r1)" and
    2: "literal ''[label='' (skip_space r1) = Some r2" and
    3: "quoted r2 = Some (label, r3)" and
    4: "literal '']'' r3 = Some r4"
    by (auto simp: nodeRegex_at_def split: option.splits prod.splits)
  from 2 obtain ws where ws: "\<forall>c \<in> set ws. is_space c" "r1 = ws @ ''[label='' @ r2"
    by (subst (asm) skip_space_literal_iff) (auto simp: is_space_def)
  show ?R
    using 1 3 4 ws unfolding quoted_iff literal_iff by auto
next
  assume ?R
  then obtain ws rest where a: "ident \<noteq> []" "dquote \<notin> set ident" "\<forall>c \<in> set ws. is_space c"
    "label \<noteq> []" "dquote \<notin> set label"
    "s = dquote # ident @ dquote # ws @ ''[label='' @ dquote # label @ dquote # '']'' @ rest"
    by blast
  have 1: "quoted s = Some (ident, ws @ ''[label='' @ dquote # label @ dquote # '']'' @ rest)"
    using a by (simp add: quoted_iff)
  have 2: "literal ''[label='' (skip_space (ws @ ''[label='' @ dquote # label @ dquote # '']'' @ rest))
             = Some (dquote # label @ dquote # '']'' @ rest)"
    by (subst skip_space_literal_iff) (use a in \<open>auto simp: is_space_def\<close>)
  have 3: "quoted (dquote # label @ dquote # '']'' @ rest) = Some (label, '']'' @ rest)"
    using a by (simp add: quoted_iff)
  have 4: "literal '']'' ('']'' @ rest) = Some rest"
    by (simp add: literal_iff)
  show ?L
    unfolding nodeRegex_at_def by (simp only: 1 2 3 4 option.case prod.case)
qed

lemma regex_match_iff:
  "regex_match pat s = Some r \<longleftrightarrow>
     (\<exists>n \<le> length s. pat (drop n s) = Some r \<and> (\<forall>m < n. pat (drop m s) = None))"
proof (induction s)
  case Nil
  then show ?case by simp
next
  case (Cons c cs)
  show ?case
  proof (cases "pat (c # cs)")
    case (Some r')
    have "(\<exists>n \<le> length (c # cs). pat (drop n (c # cs)) = Some r \<and>
             (\<forall>m < n. pat (drop m (c # cs)) = None)) \<longleftrightarrow> r' = r"
    proof
      assume "\<exists>n \<le> length (c # cs). pat (drop n (c # cs)) = Some r \<and>
             (\<forall>m < n. pat (drop m (c # cs)) = None)"
      then obtain n where n: "pat (drop n (c # cs)) = Some r" "\<forall>m < n. pat (drop m (c # cs)) = None"
        by blast
      have "n = 0"
      proof (rule ccontr)
        assume "n \<noteq> 0"
        then have "pat (drop 0 (c # cs)) = None" using n(2) by blast
        with Some show False by simp
      qed
      with n Some show "r' = r" by simp
    next
      assume "r' = r"
      with Some have "pat (drop 0 (c # cs)) = Some r \<and> (\<forall>m < 0. pat (drop m (c # cs)) = None)"
        by simp
      then show "\<exists>n \<le> length (c # cs). pat (drop n (c # cs)) = Some r \<and>
             (\<forall>m < n. pat (drop m (c # cs)) = None)"
        by blast
    qed
    with Some show ?thesis by simp
  next
    case None
    have "(\<exists>n \<le> length (c # cs). pat (drop n (c # cs)) = Some r \<and>
             (\<forall>m < n. pat (drop m (c # cs)) = None)) \<longleftrightarrow>
          (\<exists>n \<le> length cs. pat (drop n cs) = Some r \<and> (\<forall>m < n. pat (drop m cs) = None))"
    proof
      assume "\<exists>n \<le> length (c # cs). pat (drop n (c # cs)) = Some r \<and>
             (\<forall>m < n. pat (drop m (c # cs)) = None)"
      then obtain n where n: "n \<le> length (c # cs)" "pat (drop n (c # cs)) = Some r"
        "\<forall>m < n. pat (drop m (c # cs)) = None"
        by blast
      then obtain k where k: "n = Suc k" using None by (cases n) auto
      have "\<forall>m < k. pat (drop m cs) = None"
      proof (intro allI impI)
        fix m assume "m < k"
        then have "pat (drop (Suc m) (c # cs)) = None" using n(3) k by blast
        then show "pat (drop m cs) = None" by simp
      qed
      with n k show "\<exists>n \<le> length cs. pat (drop n cs) = Some r \<and> (\<forall>m < n. pat (drop m cs) = None)"
        by auto
    next
      assume "\<exists>n \<le> length cs. pat (drop n cs) = Some r \<and> (\<forall>m < n. pat (drop m cs) = None)"
      then obtain k where k: "k \<le> length cs" "pat (drop k cs) = Some r"
        "\<forall>m < k. pat (drop m cs) = None"
        by blast
      have "\<forall>m < Suc k. pat (drop m (c # cs)) = None"
      proof (intro allI impI)
        fix m assume m: "m < Suc k"
        show "pat (drop m (c # cs)) = None"
        proof (cases m)
          case 0
          with None show ?thesis by simp
        next
          case (Suc m')
          with m k(3) show ?thesis by simp
        qed
      qed
      with k show "\<exists>n \<le> length (c # cs). pat (drop n (c # cs)) = Some r \<and>
             (\<forall>m < n. pat (drop m (c # cs)) = None)"
        by (intro exI [of _ "Suc k"]) simp
    qed
    with None Cons.IH show ?thesis by simp
  qed
qed

lemma skip_space_quoted_iff:
  "quoted (skip_space s) = Some (run, rest) \<longleftrightarrow>
     (\<exists>ws. (\<forall>c \<in> set ws. is_space c) \<and> run \<noteq> [] \<and> dquote \<notin> set run \<and>
           s = ws @ dquote # run @ dquote # rest)"
proof
  assume "quoted (skip_space s) = Some (run, rest)"
  then have q: "run \<noteq> []" "dquote \<notin> set run" "dropWhile is_space s = dquote # run @ dquote # rest"
    by (simp_all add: quoted_iff skip_space_def)
  have "s = takeWhile is_space s @ dquote # run @ dquote # rest"
    using takeWhile_dropWhile_id [of is_space s] q(3) by simp
  moreover have "\<forall>c \<in> set (takeWhile is_space s). is_space c"
    by (auto dest: set_takeWhileD)
  ultimately show "\<exists>ws. (\<forall>c \<in> set ws. is_space c) \<and> run \<noteq> [] \<and> dquote \<notin> set run \<and>
           s = ws @ dquote # run @ dquote # rest"
    using q(1,2) by blast
next
  assume "\<exists>ws. (\<forall>c \<in> set ws. is_space c) \<and> run \<noteq> [] \<and> dquote \<notin> set run \<and>
           s = ws @ dquote # run @ dquote # rest"
  then obtain ws where ws: "\<forall>c \<in> set ws. is_space c" "run \<noteq> []" "dquote \<notin> set run"
    "s = ws @ dquote # run @ dquote # rest"
    by blast
  have "\<not> is_space dquote" by (simp add: is_space_def)
  then have "dropWhile is_space s = dquote # run @ dquote # rest"
    using ws(1,4) by (simp add: dropWhile_append2)
  then show "quoted (skip_space s) = Some (run, rest)"
    using ws(2,3) by (simp add: quoted_iff skip_space_def)
qed

lemma edgeRegex_at_iff:
  "edgeRegex_at s = Some (src, dst) \<longleftrightarrow>
     (\<exists>ws1 ws2 rest. src \<noteq> [] \<and> dquote \<notin> set src \<and> (\<forall>c \<in> set ws1. is_space c) \<and>
        (\<forall>c \<in> set ws2. is_space c) \<and> dst \<noteq> [] \<and> dquote \<notin> set dst \<and>
        s = dquote # src @ dquote # ws1 @ ''->'' @ ws2 @ dquote # dst @ dquote # rest)"
  (is "?L \<longleftrightarrow> ?R")
proof
  assume ?L
  then obtain r1 r2 r3 where
    1: "quoted s = Some (src, r1)" and
    2: "literal ''->'' (skip_space r1) = Some r2" and
    3: "quoted (skip_space r2) = Some (dst, r3)"
    by (auto simp: edgeRegex_at_def split: option.splits prod.splits)
  from 2 obtain ws1 where ws1: "\<forall>c \<in> set ws1. is_space c" "r1 = ws1 @ ''->'' @ r2"
    by (subst (asm) skip_space_literal_iff) (auto simp: is_space_def)
  from 3 obtain ws2 where ws2: "\<forall>c \<in> set ws2. is_space c" "dst \<noteq> []" "dquote \<notin> set dst"
    "r2 = ws2 @ dquote # dst @ dquote # r3"
    unfolding skip_space_quoted_iff by blast
  have "src \<noteq> []" "dquote \<notin> set src" "s = dquote # src @ dquote # r1"
    using 1 by (simp_all add: quoted_iff)
  then show ?R using ws1 ws2 by auto
next
  assume ?R
  then obtain ws1 ws2 rest where a: "src \<noteq> []" "dquote \<notin> set src" "\<forall>c \<in> set ws1. is_space c"
    "\<forall>c \<in> set ws2. is_space c" "dst \<noteq> []" "dquote \<notin> set dst"
    "s = dquote # src @ dquote # ws1 @ ''->'' @ ws2 @ dquote # dst @ dquote # rest"
    by blast
  have 1: "quoted s = Some (src, ws1 @ ''->'' @ ws2 @ dquote # dst @ dquote # rest)"
    using a by (simp add: quoted_iff)
  have 2: "literal ''->'' (skip_space (ws1 @ ''->'' @ ws2 @ dquote # dst @ dquote # rest))
             = Some (ws2 @ dquote # dst @ dquote # rest)"
    by (subst skip_space_literal_iff) (use a in \<open>auto simp: is_space_def\<close>)
  have 3: "quoted (skip_space (ws2 @ dquote # dst @ dquote # rest)) = Some (dst, rest)"
    unfolding skip_space_quoted_iff using a by blast
  show ?L
    unfolding edgeRegex_at_def by (simp only: 1 2 3 option.case prod.case)
qed

section \<open>The node map\<close>

lemma set_qmap_insert_keys:
  "fst ` set (qmap_insert k x m) = insert k (fst ` set m)"
  by (induction k x m rule: qmap_insert.induct) auto

lemma sorted_qmap_insert:
  "sorted_wrt (<) (map fst m) \<Longrightarrow> sorted_wrt (<) (map fst (qmap_insert k x m))"
proof (induction k x m rule: qmap_insert.induct)
  case (1 k v)
  then show ?case by simp
next
  case (2 k v k' v' m)
  show ?case
  proof (cases "k < k'")
    case True
    with 2 show ?thesis by auto
  next
    case False
    show ?thesis
    proof (cases "k = k'")
      case True
      with 2 show ?thesis by simp
    next
      case ne: False
      with False have lt: "k' < k" by simp
      have "\<forall>y \<in> fst ` set (qmap_insert k v m). k' < y"
        using 2(2) lt unfolding set_qmap_insert_keys by auto
      with 2 False ne show ?thesis by simp
    qed
  qed
qed

lemma set_qmap_insert_new:
  "k \<notin> fst ` set m \<Longrightarrow> set (qmap_insert k x m) = insert (k, x) (set m)"
  by (induction k x m rule: qmap_insert.induct) auto

lemma length_qmap_insert_new:
  "k \<notin> fst ` set m \<Longrightarrow> length (qmap_insert k x m) = Suc (length m)"
  by (induction k x m rule: qmap_insert.induct) auto

lemma distinct_snd_qmap_insert:
  "k \<notin> fst ` set m \<Longrightarrow> x \<notin> snd ` set m \<Longrightarrow> distinct (map snd m) \<Longrightarrow>
   distinct (map snd (qmap_insert k x m))"
proof (induction k x m rule: qmap_insert.induct)
  case (1 k v)
  then show ?case by simp
next
  case (2 k v k' v' m)
  have "snd ` set (qmap_insert k v m) = insert v (snd ` set m)"
    using 2(2) by (simp add: set_qmap_insert_new)
  with 2 show ?case by auto
qed

lemma map_of_qmap_insert:
  "map_of (qmap_insert k x m) = (map_of m)(k \<mapsto> x)"
  by (induction k x m rule: qmap_insert.induct) (auto simp: fun_eq_iff)

lemma map_of_None_keys: "map_of m k = None \<longleftrightarrow> k \<notin> fst ` set m"
  by (simp add: map_of_eq_None_iff)

lemma createNode_known:
  "ident \<in> fst ` set (m_nodes v) \<Longrightarrow> snd (createNode ident label v) = v"
  by (cases "map_of (m_nodes v) ident") (simp_all add: createNode_def map_of_None_keys)

lemma createNode_new:
  "ident \<notin> fst ` set (m_nodes v) \<Longrightarrow>
   snd (createNode ident label v) =
     v\<lparr>m_scene := m_scene v @ [EllipseItem (0, 0) (displayLabel label)],
       m_nodes := qmap_insert ident (length (m_scene v)) (m_nodes v)\<rparr>"
  by (simp add: createNode_def Let_def map_of_None_keys [symmetric])

lemma nodes_wfD:
  assumes "nodes_wf v D"
  shows "sorted_wrt (<) (map fst (m_nodes v))"
    and "fst ` set (m_nodes v) = dom D"
    and "distinct (map snd (m_nodes v))"
    and "m_placeholderText v = None"
    and "\<And>x. x \<in> set (m_scene v) \<Longrightarrow> is_ellipse x"
    and "\<And>e. e \<in> set (m_nodes v) \<Longrightarrow> snd e < length (m_scene v)"
    and "\<And>e. e \<in> set (m_nodes v) \<Longrightarrow>
           m_scene v ! snd e = EllipseItem (0, 0) (displayLabel (the (D (fst e))))"
  using assms unfolding nodes_wf_def by blast+

lemma createNode_wf:
  assumes "nodes_wf v D"
  shows "nodes_wf (snd (createNode ident label v))
           (if ident \<in> dom D then D else D(ident \<mapsto> label))"
proof (cases "ident \<in> dom D")
  case True
  with nodes_wfD(2) [OF assms] have "ident \<in> fst ` set (m_nodes v)" by simp
  then have "snd (createNode ident label v) = v" by (rule createNode_known)
  with True assms show ?thesis by simp
next
  case False
  with nodes_wfD(2) [OF assms] have new: "ident \<notin> fst ` set (m_nodes v)" by simp
  let ?n = "length (m_scene v)"
  let ?it = "EllipseItem (0, 0) (displayLabel label)"
  let ?m' = "qmap_insert ident ?n (m_nodes v)"
  let ?v' = "v\<lparr>m_scene := m_scene v @ [?it], m_nodes := ?m'\<rparr>"
  have v': "snd (createNode ident label v) = ?v'"
    using new by (rule createNode_new)
  have fresh: "?n \<notin> snd ` set (m_nodes v)"
    using nodes_wfD(6) [OF assms] by fastforce
  have a: "sorted_wrt (<) (map fst ?m')"
    using nodes_wfD(1) [OF assms] by (rule sorted_qmap_insert)
  have b: "fst ` set ?m' = dom (D(ident \<mapsto> label))"
    using nodes_wfD(2) [OF assms] by (simp add: set_qmap_insert_keys)
  have c: "distinct (map snd ?m')"
    using new fresh nodes_wfD(3) [OF assms] by (rule distinct_snd_qmap_insert)
  have d: "\<forall>x \<in> set (m_scene v @ [?it]). is_ellipse x"
    using nodes_wfD(5) [OF assms] by auto
  have e: "\<forall>e \<in> set ?m'. snd e < length (m_scene v @ [?it]) \<and>
        (m_scene v @ [?it]) ! snd e
          = EllipseItem (0, 0) (displayLabel (the ((D(ident \<mapsto> label)) (fst e))))"
  proof
    fix e assume "e \<in> set ?m'"
    then have "e = (ident, ?n) \<or> e \<in> set (m_nodes v)"
      using new by (simp add: set_qmap_insert_new)
    then show "snd e < length (m_scene v @ [?it]) \<and>
        (m_scene v @ [?it]) ! snd e
          = EllipseItem (0, 0) (displayLabel (the ((D(ident \<mapsto> label)) (fst e))))"
    proof
      assume "e = (ident, ?n)"
      then show ?thesis by simp
    next
      assume old: "e \<in> set (m_nodes v)"
      then have "fst e \<noteq> ident" using new by auto
      moreover have "snd e < ?n"
        using old by (rule nodes_wfD(6) [OF assms])
      moreover have "m_scene v ! snd e = EllipseItem (0, 0) (displayLabel (the (D (fst e))))"
        using old by (rule nodes_wfD(7) [OF assms])
      ultimately show ?thesis by (simp add: nth_append)
    qed
  qed
  have f: "m_placeholderText ?v' = None"
    using nodes_wfD(4) [OF assms] by simp
  have "nodes_wf ?v' (D(ident \<mapsto> label))"
    unfolding nodes_wf_def using a b c d e f by simp
  with False v' show ?thesis by simp
qed

section \<open>The loop over the lines\<close>

lemma parse_lines_split:
  "parse_lines ls (v, es) =
     (create_nodes (List.map_filter nodeRegex_match ls) v, es @ List.map_filter line_edge ls)"
proof (induction ls arbitrary: v es)
  case Nil
  show ?case by (simp add: create_nodes_def map_filter_simps)
next
  case (Cons l ls)
  show ?case
  proof (cases "nodeRegex_match l")
    case None
    then show ?thesis
      by (cases "edgeRegex_match l")
         (simp_all add: parse_line_def Cons.IH create_nodes_def map_filter_simps line_edge_def)
  next
    case (Some d)
    then show ?thesis
      by (cases d) (simp add: parse_line_def Cons.IH create_nodes_def map_filter_simps line_edge_def)
  qed
qed

lemma create_nodes_wf:
  "nodes_wf v D \<Longrightarrow> nodes_wf (create_nodes ds v) (map_of ds ++ D)"
proof (induction ds arbitrary: v D)
  case Nil
  then show ?case by (simp add: create_nodes_def)
next
  case (Cons d ds)
  let ?D' = "if fst d \<in> dom D then D else D(fst d \<mapsto> snd d)"
  have "nodes_wf (snd (createNode (fst d) (snd d) v)) ?D'"
    using Cons.prems by (rule createNode_wf)
  then have "nodes_wf (create_nodes ds (snd (createNode (fst d) (snd d) v))) (map_of ds ++ ?D')"
    by (rule Cons.IH)
  moreover have "map_of ds ++ ?D' = map_of (d # ds) ++ D"
    by (cases d) (auto simp: fun_eq_iff map_add_def split: option.splits)
  moreover have "create_nodes (d # ds) v = create_nodes ds (snd (createNode (fst d) (snd d) v))"
    by (simp add: create_nodes_def)
  ultimately show ?case by (simp only:)
qed

lemma clear_wf: "nodes_wf (clear v) Map.empty"
  by (simp add: nodes_wf_def clear_def)

lemma create_nodes_frame:
  "sceneRect_margin (create_nodes ds v) = sceneRect_margin v \<and>
   m11 (create_nodes ds v) = m11 v \<and> m22 (create_nodes ds v) = m22 v"
  by (induction ds arbitrary: v)
     (simp_all add: create_nodes_def createNode_def Let_def split: option.splits)

section \<open>The layout loop\<close>

lemma layout_loop_Cons:
  "layout_loop (e # rest) row col scene =
     (if 5 \<le> col + 1
      then layout_loop rest (row + 1) 0
             (scene[snd e := setPos (of_int col * NODE_SPACING_X, of_int row * NODE_SPACING_Y)
                                    (scene ! snd e)])
      else layout_loop rest row (col + 1)
             (scene[snd e := setPos (of_int col * NODE_SPACING_X, of_int row * NODE_SPACING_Y)
                                    (scene ! snd e)]))"
  by (cases e) (simp add: Let_def)

lemma length_layout_loop: "length (layout_loop m row col scene) = length scene"
  by (induction m arbitrary: row col scene) (simp_all add: layout_loop_Cons)

lemma layout_loop_other:
  "p \<notin> snd ` set m \<Longrightarrow> layout_loop m row col scene ! p = scene ! p"
  by (induction m arbitrary: row col scene) (simp_all add: layout_loop_Cons)

lemma layout_loop_nth:
  assumes "distinct (map snd m)" and "\<forall>e \<in> set m. snd e < length scene"
    and "0 \<le> col" and "col < 5" and "j < length m"
  shows "layout_loop m row col scene ! snd (m ! j) =
           setPos (of_int ((col + int j) mod 5) * NODE_SPACING_X,
                   of_int (row + (col + int j) div 5) * NODE_SPACING_Y)
                  (scene ! snd (m ! j))"
  using assms
proof (induction m arbitrary: row col scene j)
  case Nil
  then show ?case by simp
next
  case (Cons e rest)
  let ?node = "snd e"
  let ?g = "(of_int col * NODE_SPACING_X, of_int row * NODE_SPACING_Y)"
  let ?scene' = "scene[?node := setPos ?g (scene ! ?node)]"
  have node_lt: "?node < length scene" using Cons.prems(2) by simp
  have node_notin: "?node \<notin> snd ` set rest" using Cons.prems(1) by simp
  have rest_lt: "\<forall>e \<in> set rest. snd e < length ?scene'" using Cons.prems(2) by simp
  have rest_d: "distinct (map snd rest)" using Cons.prems(1) by simp
  show ?case
  proof (cases j)
    case 0
    have "layout_loop (e # rest) row col scene ! ?node = ?scene' ! ?node"
      using node_notin by (simp add: layout_loop_Cons layout_loop_other)
    also have "\<dots> = setPos ?g (scene ! ?node)" using node_lt by simp
    finally show ?thesis using 0 Cons.prems(3,4) by simp
  next
    case (Suc j')
    then have j': "j' < length rest" using Cons.prems(5) by simp
    then have ne: "snd (rest ! j') \<noteq> ?node" using node_notin by (metis nth_mem image_eqI)
    show ?thesis
    proof (cases "5 \<le> col + 1")
      case True
      then have col4: "col = 4" using Cons.prems(4) by simp
      have "layout_loop rest (row + 1) 0 ?scene' ! snd (rest ! j') =
              setPos (of_int ((0 + int j') mod 5) * NODE_SPACING_X,
                      of_int (row + 1 + (0 + int j') div 5) * NODE_SPACING_Y)
                     (?scene' ! snd (rest ! j'))"
        using rest_d rest_lt _ _ j' by (rule Cons.IH) simp_all
      moreover have "(col + int j) mod 5 = (0 + int j') mod 5"
        and "row + (col + int j) div 5 = row + 1 + (0 + int j') div 5"
        using col4 Suc by simp_all
      ultimately show ?thesis using True Suc ne by (simp add: layout_loop_Cons add.assoc)
    next
      case False
      have "layout_loop rest row (col + 1) ?scene' ! snd (rest ! j') =
              setPos (of_int ((col + 1 + int j') mod 5) * NODE_SPACING_X,
                      of_int (row + (col + 1 + int j') div 5) * NODE_SPACING_Y)
                     (?scene' ! snd (rest ! j'))"
        using rest_d rest_lt _ _ j' by (rule Cons.IH) (use False Cons.prems(3) in simp_all)
      moreover have "col + int j = col + 1 + int j'" using Suc by simp
      ultimately show ?thesis using False Suc ne by (simp add: layout_loop_Cons add.assoc)
    qed
  qed
qed

lemma layout_loop_grid:
  assumes "distinct (map snd m)" and "\<forall>e \<in> set m. snd e < length scene" and "j < length m"
  shows "layout_loop m 0 0 scene ! snd (m ! j) = setPos (grid j) (scene ! snd (m ! j))"
proof -
  have "int j mod 5 = int (j mod 5)" and "int j div 5 = int (j div 5)"
    by (simp_all add: zmod_int zdiv_int)
  then show ?thesis
    using layout_loop_nth [OF assms(1,2) _ _ assms(3), of 0 0]
    by (simp add: grid_def NODE_SPACING_X_def NODE_SPACING_Y_def)
qed

lemma setPos_setPos: "setPos p (setPos q x) = setPos p x"
  by (cases x) simp_all

lemma layout_loop_again:
  assumes "distinct (map snd m)" and "\<forall>e \<in> set m. snd e < length scene"
  shows "layout_loop m 0 0 (layout_loop m 0 0 scene @ extra) = layout_loop m 0 0 scene @ extra"
proof (rule nth_equalityI)
  show "length (layout_loop m 0 0 (layout_loop m 0 0 scene @ extra))
          = length (layout_loop m 0 0 scene @ extra)"
    by (simp add: length_layout_loop)
next
  fix p
  assume "p < length (layout_loop m 0 0 (layout_loop m 0 0 scene @ extra))"
  let ?s1 = "layout_loop m 0 0 scene @ extra"
  have lt: "\<forall>e \<in> set m. snd e < length ?s1" using assms(2) by (auto simp: length_layout_loop)
  show "layout_loop m 0 0 ?s1 ! p = ?s1 ! p"
  proof (cases "p \<in> snd ` set m")
    case False
    then show ?thesis by (rule layout_loop_other)
  next
    case True
    then obtain j where j: "j < length m" and p: "p = snd (m ! j)"
      by (auto simp: in_set_conv_nth)
    have plt: "p < length scene" using assms(2) j p by simp
    have "layout_loop m 0 0 ?s1 ! p = setPos (grid j) (?s1 ! p)"
      unfolding p using assms(1) lt j by (rule layout_loop_grid)
    also have "?s1 ! p = layout_loop m 0 0 scene ! p"
      using plt by (simp add: nth_append length_layout_loop)
    also have "\<dots> = setPos (grid j) (scene ! p)"
      unfolding p using assms j by (rule layout_loop_grid)
    finally show ?thesis
      using plt by (simp add: setPos_setPos nth_append length_layout_loop p [symmetric]
          layout_loop_grid [OF assms j, unfolded p [symmetric]])
  qed
qed

section \<open>Edges and the result of a parse\<close>

lemma edge_decls_line_edge: "edge_decls content = List.map_filter line_edge (split_lines content)"
  by (simp add: edge_decls_def)

lemma parseDotFile_core:
  "parseDotFile fit content v =
     (if m_nodes (parse_core content v) \<noteq> []
      then scale 0.9 0.9 (fitInView fit (setSceneRect 50 (parse_core content v)))
      else showPlaceholder ''No nodes found in the call graph'' (parse_core content v))"
  by (simp add: parseDotFile_def parse_core_def parse_lines_split node_decls_def
      edge_decls_line_edge Let_def)

lemma layoutGraph_alt:
  "layoutGraph v = v\<lparr>m_scene := layout_loop (m_nodes v) 0 0 (m_scene v)\<rparr>"
  by (simp add: layoutGraph_def)

lemma is_ellipse_setPos: "is_ellipse (setPos p x) = is_ellipse x"
  by (cases x) simp_all

lemma layout_loop_ellipses:
  "\<forall>x \<in> set scene. is_ellipse x \<Longrightarrow> \<forall>x \<in> set (layout_loop m row col scene). is_ellipse x"
proof (induction m arbitrary: row col scene)
  case Nil
  then show ?case by simp
next
  case (Cons e rest)
  let ?scene' = "scene[snd e := setPos (of_int col * NODE_SPACING_X, of_int row * NODE_SPACING_Y)
                                     (scene ! snd e)]"
  have "\<forall>x \<in> set ?scene'. is_ellipse x"
  proof (cases "snd e < length scene")
    case True
    then have "is_ellipse (scene ! snd e)" using Cons.prems by simp
    then have "is_ellipse (setPos (of_int col * NODE_SPACING_X, of_int row * NODE_SPACING_Y)
                                  (scene ! snd e))"
      by (simp add: is_ellipse_setPos)
    moreover have "set ?scene' \<subseteq>
        insert (setPos (of_int col * NODE_SPACING_X, of_int row * NODE_SPACING_Y) (scene ! snd e))
               (set scene)"
      by (rule set_update_subset_insert)
    ultimately show ?thesis using Cons.prems by blast
  next
    case False
    then have "?scene' = scene" by (simp add: list_update_beyond not_less)
    then show ?thesis using Cons.prems by simp
  qed
  then show ?case by (simp add: layout_loop_Cons Cons.IH)
qed

lemma createEdge_frame:
  "m_nodes (createEdge a b v) = m_nodes v \<and>
   m_placeholderText (createEdge a b v) = m_placeholderText v \<and>
   sceneRect_margin (createEdge a b v) = sceneRect_margin v \<and>
   m11 (createEdge a b v) = m11 v \<and> m22 (createEdge a b v) = m22 v"
  by (simp add: createEdge_def Let_def split: option.splits)

lemma createEdge_scene:
  "\<exists>xs. m_scene (createEdge a b v) = m_scene v @ xs \<and>
        (\<forall>x \<in> set xs. \<not> is_ellipse x \<and> \<not> is_text x) \<and>
        length (filter is_line xs) =
          (if a \<in> fst ` set (m_nodes v) \<and> b \<in> fst ` set (m_nodes v) then 1 else 0)"
proof (cases "map_of (m_nodes v) a")
  case None
  then have "createEdge a b v = v" by (simp add: createEdge_def)
  moreover have "a \<notin> fst ` set (m_nodes v)" using None by (simp add: map_of_None_keys)
  ultimately show ?thesis by simp
next
  case sa: (Some p)
  then have a: "a \<in> fst ` set (m_nodes v)" by (metis map_of_None_keys option.distinct(1))
  show ?thesis
  proof (cases "map_of (m_nodes v) b")
    case None
    then have "createEdge a b v = v" using sa by (simp add: createEdge_def)
    moreover have "b \<notin> fst ` set (m_nodes v)" using None by (simp add: map_of_None_keys)
    ultimately show ?thesis by simp
  next
    case (Some q)
    then have b: "b \<in> fst ` set (m_nodes v)" by (metis map_of_None_keys option.distinct(1))
    obtain l t where "createEdge a b v = v\<lparr>m_scene := m_scene v @ [LineItem l t, PolygonItem t]\<rparr>"
      using sa Some by (simp add: createEdge_def Let_def)
    then have "m_scene (createEdge a b v) = m_scene v @ [LineItem l t, PolygonItem t]" by simp
    moreover have "\<forall>x \<in> set [LineItem l t, PolygonItem t]. \<not> is_ellipse x \<and> \<not> is_text x" by simp
    moreover have "length (filter is_line [LineItem l t, PolygonItem t]) = 1" by simp
    ultimately show ?thesis using a b by (metis (full_types))
  qed
qed

lemma create_edges_frame:
  "m_nodes (create_edges es v) = m_nodes v \<and>
   m_placeholderText (create_edges es v) = m_placeholderText v \<and>
   sceneRect_margin (create_edges es v) = sceneRect_margin v \<and>
   m11 (create_edges es v) = m11 v \<and> m22 (create_edges es v) = m22 v"
  by (induction es arbitrary: v) (simp_all add: createEdge_frame)

lemma create_edges_scene:
  "\<exists>xs. m_scene (create_edges es v) = m_scene v @ xs \<and>
        (\<forall>x \<in> set xs. \<not> is_ellipse x \<and> \<not> is_text x) \<and>
        length (filter is_line xs) =
          length (filter (\<lambda>e. fst e \<in> fst ` set (m_nodes v) \<and> snd e \<in> fst ` set (m_nodes v)) es)"
proof (induction es arbitrary: v)
  case Nil
  show ?case by simp
next
  case (Cons e es)
  let ?v1 = "createEdge (fst e) (snd e) v"
  obtain xs where xs: "m_scene ?v1 = m_scene v @ xs"
    "\<forall>x \<in> set xs. \<not> is_ellipse x \<and> \<not> is_text x"
    "length (filter is_line xs) =
       (if fst e \<in> fst ` set (m_nodes v) \<and> snd e \<in> fst ` set (m_nodes v) then 1 else 0)"
    using createEdge_scene [of "fst e" "snd e" v] by blast
  obtain ys where ys: "m_scene (create_edges es ?v1) = m_scene ?v1 @ ys"
    "\<forall>x \<in> set ys. \<not> is_ellipse x \<and> \<not> is_text x"
    "length (filter is_line ys) =
       length (filter (\<lambda>e. fst e \<in> fst ` set (m_nodes ?v1) \<and> snd e \<in> fst ` set (m_nodes ?v1)) es)"
    using Cons.IH [of ?v1] by blast
  have m: "m_nodes ?v1 = m_nodes v" by (simp add: createEdge_frame)
  have "m_scene (create_edges (e # es) v) = m_scene v @ (xs @ ys)"
    using xs(1) ys(1) by simp
  moreover have "\<forall>x \<in> set (xs @ ys). \<not> is_ellipse x \<and> \<not> is_text x"
    using xs(2) ys(2) by auto
  moreover have "length (filter is_line (xs @ ys)) =
      length (filter (\<lambda>e. fst e \<in> fst ` set (m_nodes v) \<and> snd e \<in> fst ` set (m_nodes v)) (e # es))"
    using xs(3) ys(3) m by simp
  ultimately show ?case by blast
qed

lemma strict_sorted_keys_eq:
  assumes "sorted_wrt (<) (xs :: string list)" and "set xs = K"
  shows "xs = sorted_list_of_set K"
proof -
  have "sorted xs" and "distinct xs"
    using assms(1) by (simp_all add: strict_sorted_iff)
  moreover have "finite K" using assms(2) by auto
  ultimately show ?thesis
    using assms(2) by (metis sorted_list_of_set.idem_if_sorted_distinct)
qed

lemma create_nodes_clear_wf:
  "nodes_wf (create_nodes ds (clear v)) (map_of ds)"
  using create_nodes_wf [OF clear_wf, of ds v] by simp

lemma parse_core_nodes:
  "m_nodes (parse_core content v) = m_nodes (create_nodes (node_decls content) (clear v))"
  by (simp add: parse_core_def create_edges_frame layoutGraph_alt)

lemma parse_core_keys:
  "map fst (m_nodes (parse_core content v)) = sorted_list_of_set (fst ` set (node_decls content))"
proof -
  let ?v2 = "create_nodes (node_decls content) (clear v)"
  have wf: "nodes_wf ?v2 (map_of (node_decls content))" by (rule create_nodes_clear_wf)
  have "set (map fst (m_nodes ?v2)) = fst ` set (node_decls content)"
    using nodes_wfD(2) [OF wf] by (simp add: dom_map_of_conv_image_fst)
  with nodes_wfD(1) [OF wf] have "map fst (m_nodes ?v2) = sorted_list_of_set (fst ` set (node_decls content))"
    by (rule strict_sorted_keys_eq)
  then show ?thesis by (simp only: parse_core_nodes)
qed

lemma parse_core_ptrs: "distinct (map snd (m_nodes (parse_core content v)))"
  using nodes_wfD(3) [OF create_nodes_clear_wf] by (simp only: parse_core_nodes)

lemma parse_core_placeholder: "m_placeholderText (parse_core content v) = None"
  using nodes_wfD(4) [OF create_nodes_clear_wf, of "node_decls content" v]
  by (simp add: parse_core_def create_edges_frame layoutGraph_alt)

lemma parse_core_view:
  "sceneRect_margin (parse_core content v) = sceneRect_margin v \<and>
   m11 (parse_core content v) = m11 v \<and> m22 (parse_core content v) = m22 v"
  by (simp add: parse_core_def create_edges_frame layoutGraph_alt create_nodes_frame clear_def)

lemma parse_core_scene:
  fixes content v
  defines "v2 \<equiv> create_nodes (node_decls content) (clear v)"
  shows "\<exists>xs. m_scene (parse_core content v) = layout_loop (m_nodes v2) 0 0 (m_scene v2) @ xs \<and>
          (\<forall>x \<in> set xs. \<not> is_ellipse x \<and> \<not> is_text x) \<and>
          length (filter is_line xs) =
            length (filter (\<lambda>e. fst e \<in> fst ` set (node_decls content) \<and>
                                 snd e \<in> fst ` set (node_decls content)) (edge_decls content))"
proof -
  have wf: "nodes_wf v2 (map_of (node_decls content))"
    unfolding v2_def by (rule create_nodes_clear_wf)
  have keys: "fst ` set (m_nodes (layoutGraph v2)) = fst ` set (node_decls content)"
    using nodes_wfD(2) [OF wf] by (simp add: layoutGraph_alt dom_map_of_conv_image_fst)
  show ?thesis
    using create_edges_scene [of "edge_decls content" "layoutGraph v2"]
    unfolding keys by (simp add: parse_core_def v2_def [symmetric] layoutGraph_alt)
qed

lemma parse_core_item:
  assumes "j < length (m_nodes (parse_core content v))"
  shows "snd (m_nodes (parse_core content v) ! j) < length (m_scene (parse_core content v)) \<and>
         m_scene (parse_core content v) ! snd (m_nodes (parse_core content v) ! j) =
           EllipseItem (grid j)
             (displayLabel (the (map_of (node_decls content) (fst (m_nodes (parse_core content v) ! j)))))"
proof -
  define v2 where "v2 = create_nodes (node_decls content) (clear v)"
  define m where "m = m_nodes v2"
  have wf: "nodes_wf v2 (map_of (node_decls content))"
    unfolding v2_def by (rule create_nodes_clear_wf)
  have m: "m_nodes (parse_core content v) = m"
    by (simp add: parse_core_nodes m_def v2_def)
  have j: "j < length m" using assms m by simp
  then have mem: "m ! j \<in> set (m_nodes v2)" by (simp add: m_def)
  have lt: "\<forall>e \<in> set m. snd e < length (m_scene v2)"
    using nodes_wfD(6) [OF wf] by (simp add: m_def)
  have d: "distinct (map snd m)" using nodes_wfD(3) [OF wf] by (simp add: m_def)
  obtain xs where xs: "m_scene (parse_core content v) = layout_loop m 0 0 (m_scene v2) @ xs"
    using parse_core_scene [of content v] unfolding v2_def [symmetric] m_def [symmetric] by blast
  have plt: "snd (m ! j) < length (m_scene v2)" using lt j by simp
  have "layout_loop m 0 0 (m_scene v2) ! snd (m ! j) = setPos (grid j) (m_scene v2 ! snd (m ! j))"
    using d lt j by (rule layout_loop_grid)
  also have "m_scene v2 ! snd (m ! j) =
      EllipseItem (0, 0) (displayLabel (the (map_of (node_decls content) (fst (m ! j)))))"
    using mem by (rule nodes_wfD(7) [OF wf])
  finally have "layout_loop m 0 0 (m_scene v2) ! snd (m ! j) =
      EllipseItem (grid j) (displayLabel (the (map_of (node_decls content) (fst (m ! j)))))"
    by simp
  then show ?thesis
    using plt by (simp add: m xs nth_append length_layout_loop)
qed

lemma parse_core_lines:
  "length (filter is_line (m_scene (parse_core content v))) =
     length (filter (\<lambda>e. fst e \<in> fst ` set (node_decls content) \<and>
                          snd e \<in> fst ` set (node_decls content)) (edge_decls content))"
proof -
  define v2 where "v2 = create_nodes (node_decls content) (clear v)"
  have wf: "nodes_wf v2 (map_of (node_decls content))"
    unfolding v2_def by (rule create_nodes_clear_wf)
  obtain xs where xs: "m_scene (parse_core content v) = layout_loop (m_nodes v2) 0 0 (m_scene v2) @ xs"
    and n: "length (filter is_line xs) =
            length (filter (\<lambda>e. fst e \<in> fst ` set (node_decls content) \<and>
                                 snd e \<in> fst ` set (node_decls content)) (edge_decls content))"
    using parse_core_scene [of content v] unfolding v2_def [symmetric] by blast
  have "\<forall>x \<in> set (layout_loop (m_nodes v2) 0 0 (m_scene v2)). is_ellipse x"
    using nodes_wfD(5) [OF wf] by (intro layout_loop_ellipses) simp
  then have "\<forall>x \<in> set (layout_loop (m_nodes v2) 0 0 (m_scene v2)). \<not> is_line x"
    by (metis is_ellipse.elims(2) is_line.simps(2))
  then have "filter is_line (layout_loop (m_nodes v2) 0 0 (m_scene v2)) = []"
    by (simp add: filter_empty_conv)
  then show ?thesis using xs n by simp
qed

lemma parse_core_no_text: "\<forall>x \<in> set (m_scene (parse_core content v)). \<not> is_text x"
proof -
  define v2 where "v2 = create_nodes (node_decls content) (clear v)"
  have wf: "nodes_wf v2 (map_of (node_decls content))"
    unfolding v2_def by (rule create_nodes_clear_wf)
  obtain xs where xs: "m_scene (parse_core content v) = layout_loop (m_nodes v2) 0 0 (m_scene v2) @ xs"
    and n: "\<forall>x \<in> set xs. \<not> is_ellipse x \<and> \<not> is_text x"
    using parse_core_scene [of content v] unfolding v2_def [symmetric] by blast
  have "\<forall>x \<in> set (layout_loop (m_nodes v2) 0 0 (m_scene v2)). is_ellipse x"
    using nodes_wfD(5) [OF wf] by (intro layout_loop_ellipses) simp
  then have "\<forall>x \<in> set (layout_loop (m_nodes v2) 0 0 (m_scene v2)). \<not> is_text x"
    by (metis is_ellipse.elims(2) is_text.simps(2))
  then show ?thesis using xs n by auto
qed

lemma parse_core_layout_again:
  "layoutGraph (parse_core content v) = parse_core content v"
proof -
  define v2 where "v2 = create_nodes (node_decls content) (clear v)"
  have wf: "nodes_wf v2 (map_of (node_decls content))"
    unfolding v2_def by (rule create_nodes_clear_wf)
  have m: "m_nodes (parse_core content v) = m_nodes v2"
    by (simp add: parse_core_nodes v2_def)
  obtain xs where xs: "m_scene (parse_core content v) = layout_loop (m_nodes v2) 0 0 (m_scene v2) @ xs"
    using parse_core_scene [of content v] unfolding v2_def [symmetric] by blast
  have "layout_loop (m_nodes v2) 0 0 (layout_loop (m_nodes v2) 0 0 (m_scene v2) @ xs)
          = layout_loop (m_nodes v2) 0 0 (m_scene v2) @ xs"
    using nodes_wfD(3) [OF wf] nodes_wfD(6) [OF wf] by (intro layout_loop_again) simp_all
  then show ?thesis by (simp add: layoutGraph_alt m xs [symmetric])
qed

lemma parse_core_empty:
  assumes "node_decls content = []"
  shows "parse_core content v = clear v"
proof -
  have "create_edges es (clear v) = clear v" for es
    by (induction es) (simp_all add: createEdge_def clear_def)
  with assms show ?thesis
    by (simp add: parse_core_def create_nodes_def layoutGraph_def clear_def)
qed

lemma parse_core_nodes_empty_iff:
  "m_nodes (parse_core content v) = [] \<longleftrightarrow> node_decls content = []"
proof -
  have "map fst (m_nodes (parse_core content v)) = [] \<longleftrightarrow> fst ` set (node_decls content) = {}"
    unfolding parse_core_keys by (simp add: sorted_list_of_set_eq_Nil_iff)
  then show ?thesis by simp
qed

lemma map_of_nth_distinct:
  "distinct (map fst m) \<Longrightarrow> k < length m \<Longrightarrow> map_of m (fst (m ! k)) = Some (snd (m ! k))"
  by (simp add: map_of_eq_Some_iff [of m "fst (m ! k)" "snd (m ! k)"])

lemma filter_key_once:
  "distinct (map fst m) \<Longrightarrow> ident \<in> fst ` set m \<Longrightarrow> length (filter (\<lambda>e. fst e = ident) m) = 1"
proof (induction m)
  case Nil
  then show ?case by simp
next
  case (Cons e m)
  show ?case
  proof (cases "fst e = ident")
    case True
    then have "ident \<notin> fst ` set m" using Cons.prems(1) by auto
    then have "filter (\<lambda>e. fst e = ident) m = []" by (auto simp: filter_empty_conv)
    with True show ?thesis by simp
  next
    case False
    with Cons show ?thesis by auto
  qed
qed

lemma strict_sorted_rank:
  assumes "sorted_wrt (<) (xs :: string list)" and "j < length xs"
  shows "card {i \<in> set xs. i < xs ! j} = j"
proof -
  have d: "distinct xs" using assms(1) by (simp add: strict_sorted_iff)
  have "{i \<in> set xs. i < xs ! j} = set (take j xs)"
  proof (intro set_eqI iffI)
    fix i assume "i \<in> {i \<in> set xs. i < xs ! j}"
    then obtain a where a: "a < length xs" "xs ! a = i" "i < xs ! j"
      by (auto simp: in_set_conv_nth)
    have "a < j"
    proof (rule ccontr)
      assume "\<not> a < j"
      then have "j = a \<or> j < a" by auto
      then have "xs ! j \<le> xs ! a"
      proof
        assume "j = a"
        then show ?thesis by simp
      next
        assume "j < a"
        then have "xs ! j < xs ! a"
          using assms(1) a(1) by (simp add: sorted_wrt_iff_nth_less)
        then show ?thesis by simp
      qed
      with a(2,3) show False by simp
    qed
    then show "i \<in> set (take j xs)"
      using a assms(2) by (auto simp: in_set_conv_nth)
  next
    fix i assume "i \<in> set (take j xs)"
    then obtain a where a: "a < j" "xs ! a = i"
      using assms(2) by (auto simp: in_set_conv_nth)
    then have "i < xs ! j" using assms by (auto simp: sorted_wrt_iff_nth_less)
    moreover have "i \<in> set xs" using a assms(2) by auto
    ultimately show "i \<in> {i \<in> set xs. i < xs ! j}" by simp
  qed
  moreover have "card (set (take j xs)) = j"
    using d assms(2) by (simp add: distinct_card)
  ultimately show ?thesis by simp
qed

lemma parse_nodes:
  "m_nodes (parseDotFile fit content v) = m_nodes (parse_core content v)"
  by (simp add: parseDotFile_core scale_def fitInView_def setSceneRect_def showPlaceholder_def
      clear_def Let_def)

lemma parse_scene:
  "m_nodes (parse_core content v) \<noteq> [] \<Longrightarrow>
   m_scene (parseDotFile fit content v) = m_scene (parse_core content v)"
  by (simp add: parseDotFile_core scale_def fitInView_def setSceneRect_def)

lemma parse_empty:
  assumes "node_decls content = []"
  shows "parseDotFile fit content v = showPlaceholder ''No nodes found in the call graph'' v"
proof -
  have "m_nodes (parse_core content v) = []" using assms by (simp add: parse_core_nodes_empty_iff)
  then have "parseDotFile fit content v
      = showPlaceholder ''No nodes found in the call graph'' (parse_core content v)"
    by (simp add: parseDotFile_core)
  then show ?thesis using assms by (simp add: parse_core_empty showPlaceholder_def clear_def)
qed

lemma parse_layout_again:
  "layoutGraph (parseDotFile fit content v) = parseDotFile fit content v"
proof (cases "m_nodes (parse_core content v) = []")
  case True
  then show ?thesis by (simp add: layoutGraph_def parse_nodes)
next
  case False
  have "parse_core content v\<lparr>m_scene := layout_loop (m_nodes (parse_core content v)) 0 0
                                          (m_scene (parse_core content v))\<rparr>
         = parse_core content v"
    using parse_core_layout_again [of content v] by (simp add: layoutGraph_alt)
  then have "m_scene (parse_core content v\<lparr>m_scene := layout_loop (m_nodes (parse_core content v)) 0 0
                                          (m_scene (parse_core content v))\<rparr>)
         = m_scene (parse_core content v)"
    by (simp only:)
  then have "layout_loop (m_nodes (parse_core content v)) 0 0 (m_scene (parse_core content v))
         = m_scene (parse_core content v)"
    by simp
  then show ?thesis
    using False by (simp add: layoutGraph_alt parse_nodes parse_scene)
qed

lemma parse_node_item:
  assumes "j < length (m_nodes (parseDotFile fit content v))"
  shows "map_of (m_nodes (parseDotFile fit content v))
           (sorted_list_of_set (fst ` set (node_decls content)) ! j)
         = Some (snd (m_nodes (parseDotFile fit content v) ! j)) \<and>
         m_scene (parseDotFile fit content v) ! snd (m_nodes (parseDotFile fit content v) ! j) =
           EllipseItem (grid j)
             (displayLabel (the (map_of (node_decls content)
                (sorted_list_of_set (fst ` set (node_decls content)) ! j))))"
proof -
  let ?c = "parse_core content v"
  have j: "j < length (m_nodes ?c)" using assms by (simp add: parse_nodes)
  then have ne: "m_nodes ?c \<noteq> []" by auto
  have keys: "map fst (m_nodes ?c) = sorted_list_of_set (fst ` set (node_decls content))"
    by (rule parse_core_keys)
  then have kj: "sorted_list_of_set (fst ` set (node_decls content)) ! j = fst (m_nodes ?c ! j)"
    using j by (metis nth_map)
  have "distinct (map fst (m_nodes ?c))" unfolding keys by simp
  then have "map_of (m_nodes ?c) (fst (m_nodes ?c ! j)) = Some (snd (m_nodes ?c ! j))"
    using j by (rule map_of_nth_distinct)
  then show ?thesis
    using parse_core_item [OF j] ne by (simp add: parse_nodes parse_scene kj)
qed

lemma parse_declared_node:
  assumes "map_of (node_decls content) ident = Some label"
  shows "\<exists>j < length (m_nodes (parseDotFile fit content v)).
           map_of (m_nodes (parseDotFile fit content v)) ident
             = Some (snd (m_nodes (parseDotFile fit content v) ! j)) \<and>
           m_scene (parseDotFile fit content v) ! snd (m_nodes (parseDotFile fit content v) ! j)
             = EllipseItem (grid j) (displayLabel label) \<and>
           card {i \<in> fst ` set (node_decls content). i < ident} = j"
proof -
  let ?P = "parseDotFile fit content v"
  let ?ids = "sorted_list_of_set (fst ` set (node_decls content))"
  have keys: "map fst (m_nodes ?P) = ?ids"
    by (simp only: parse_nodes parse_core_keys)
  have "ident \<in> fst ` set (node_decls content)"
    using assms by (metis map_of_eq_None_iff option.distinct(1))
  then have "ident \<in> set ?ids" by simp
  then obtain j where j: "j < length ?ids" and idj: "?ids ! j = ident"
    by (metis in_set_conv_nth)
  have jm: "j < length (m_nodes ?P)" using j keys by (metis length_map)
  have item: "map_of (m_nodes ?P) ident = Some (snd (m_nodes ?P ! j))"
    "m_scene ?P ! snd (m_nodes ?P ! j) = EllipseItem (grid j) (displayLabel label)"
    using parse_node_item [OF jm] assms by (simp_all add: idj)
  have "sorted_wrt (<) ?ids" by (simp add: strict_sorted_iff)
  then have "card {i \<in> set ?ids. i < ?ids ! j} = j"
    using j by (rule strict_sorted_rank)
  then have rank: "card {i \<in> fst ` set (node_decls content). i < ident} = j"
    by (simp add: idj)
  show ?thesis using jm item rank by blast
qed

lemma displayLabel_cases:
  "displayLabel label = (if length label \<le> 20 then label else ''...'' @ drop (length label - 20) label)"
  by (simp add: displayLabel_def right_def)

lemma showPlaceholder_fields:
  "m_scene (showPlaceholder message v) = [TextItem message] \<and>
   m_nodes (showPlaceholder message v) = [] \<and>
   m_placeholderText (showPlaceholder message v) = Some 0 \<and>
   sceneRect_margin (showPlaceholder message v) = 100 \<and>
   m11 (showPlaceholder message v) = m11 v \<and> m22 (showPlaceholder message v) = m22 v"
  by (simp add: showPlaceholder_def clear_def setSceneRect_def Let_def)

lemma parse_loop_nodes:
  "m_nodes (fst (parse_lines (split_lines content) (clear v, []))) = m_nodes (parse_core content v)"
  by (simp add: parse_lines_split parse_core_nodes node_decls_def)

lemma showPlaceholder_state:
  "placeholder_state (showPlaceholder message v) \<and> \<not> graph_state (showPlaceholder message v)"
  by (simp add: placeholder_state_def graph_state_def showPlaceholder_fields)

lemma parse_state:
  "(placeholder_state (parseDotFile fit content v) \<and> \<not> graph_state (parseDotFile fit content v)) \<or>
   (graph_state (parseDotFile fit content v) \<and> \<not> placeholder_state (parseDotFile fit content v))"
proof (cases "node_decls content = []")
  case True
  then show ?thesis by (simp add: parse_empty showPlaceholder_state)
next
  case False
  let ?P = "parseDotFile fit content v"
  let ?c = "parse_core content v"
  have ne: "m_nodes ?c \<noteq> []" using False by (simp add: parse_core_nodes_empty_iff)
  have a: "m_nodes ?P \<noteq> []" using ne by (simp add: parse_nodes)
  have b: "m_placeholderText ?P = None"
    using ne by (simp add: parseDotFile_core scale_def fitInView_def setSceneRect_def
        parse_core_placeholder)
  have c: "list_all (\<lambda>x. \<not> is_text x) (m_scene ?P)"
    using ne parse_core_no_text [of content v] by (simp add: parse_scene list_all_iff)
  have d: "list_all (\<lambda>e. snd e < length (m_scene ?P) \<and> is_ellipse (m_scene ?P ! snd e)) (m_nodes ?P)"
    unfolding list_all_iff
  proof
    fix e assume "e \<in> set (m_nodes ?P)"
    then obtain j where j: "j < length (m_nodes ?c)" and e: "e = m_nodes ?c ! j"
      by (metis in_set_conv_nth parse_nodes)
    show "snd e < length (m_scene ?P) \<and> is_ellipse (m_scene ?P ! snd e)"
      using parse_core_item [OF j] ne by (simp add: parse_scene e)
  qed
  have "graph_state ?P" using a b c d by (simp add: graph_state_def)
  moreover have "\<not> placeholder_state ?P" using a by (simp add: placeholder_state_def)
  ultimately show ?thesis by simp
qed

lemma clear_clear: "clear (clear v) = clear v"
  by (simp add: clear_def)

section \<open>Layout\<close>

text \<open>
  C1 with the first-seen order does not hold. The order of the grid is not the order in
  which the identifiers are first seen: when \<open>b\<close> is declared before \<open>a\<close>, the node
  \<open>b\<close>, first in the text, is laid out in the second cell, at \<open>(200, 0)\<close>.
\<close>

theorem layout_first_seen_order_counterexample:
  "map fst (node_decls ''\"b\" [label=\"B\"];\<newline>\"a\" [label=\"A\"];'') = [''b'', ''a''] \<and>
   node_pos (parseDotFile (\<lambda>s. 1) ''\"b\" [label=\"B\"];\<newline>\"a\" [label=\"A\"];'' GraphView_new) ''b''
     = Some (200, 0) \<and>
   node_pos (parseDotFile (\<lambda>s. 1) ''\"b\" [label=\"B\"];\<newline>\"a\" [label=\"A\"];'' GraphView_new) ''b''
     \<noteq> Some (real (0 mod 5) * 200, real (0 div 5) * 80)"
  by code_simp

text \<open>
  C1, as the code has it: after \<open>parseDotFile\<close> the node whose identifier is the k-th
  (from 0) in ascending order of the declared identifiers, which is the order in which
  the \<open>QMap\<close> of the nodes is walked, is at \<open>(c * 200, r * 80)\<close> with \<open>c = k mod 5\<close> and
  \<open>r = k div 5\<close>, and running \<open>layoutGraph\<close> again changes nothing.
\<close>

theorem layout_grid_in_key_order:
  "k < length (m_nodes (parseDotFile fit content v)) \<Longrightarrow>
   map fst (m_nodes (parseDotFile fit content v))
     = sorted_list_of_set (fst ` set (node_decls content)) \<and>
   node_pos (parseDotFile fit content v) (sorted_list_of_set (fst ` set (node_decls content)) ! k)
     = Some (real (k mod 5) * 200, real (k div 5) * 80) \<and>
   layoutGraph (parseDotFile fit content v) = parseDotFile fit content v"
proof -
  assume k: "k < length (m_nodes (parseDotFile fit content v))"
  have "map fst (m_nodes (parseDotFile fit content v))
     = sorted_list_of_set (fst ` set (node_decls content))"
    by (simp only: parse_nodes parse_core_keys)
  moreover have "node_pos (parseDotFile fit content v)
      (sorted_list_of_set (fst ` set (node_decls content)) ! k)
     = Some (real (k mod 5) * 200, real (k div 5) * 80)"
    using parse_node_item [OF k] by (simp add: node_pos_def grid_def)
  moreover have "layoutGraph (parseDotFile fit content v) = parseDotFile fit content v"
    by (rule parse_layout_again)
  ultimately show ?thesis by blast
qed

theorem layout_grid_in_key_order_witness:
  "1 < length (m_nodes (parseDotFile (\<lambda>s. 1) ''\"b\" [label=\"B\"];\<newline>\"a\" [label=\"A\"];'' GraphView_new)) \<and>
   map fst (m_nodes (parseDotFile (\<lambda>s. 1) ''\"b\" [label=\"B\"];\<newline>\"a\" [label=\"A\"];'' GraphView_new))
     = [''a'', ''b''] \<and>
   node_pos (parseDotFile (\<lambda>s. 1) ''\"b\" [label=\"B\"];\<newline>\"a\" [label=\"A\"];'' GraphView_new) ''b''
     = Some (200, 0)"
proof -
  have h: "1 < length (m_nodes (parseDotFile (\<lambda>s. 1) ''\"b\" [label=\"B\"];\<newline>\"a\" [label=\"A\"];'' GraphView_new))"
    by code_simp
  have e: "sorted_list_of_set (fst ` set (node_decls ''\"b\" [label=\"B\"];\<newline>\"a\" [label=\"A\"];''))
             = [''a'', ''b'']"
    by code_simp
  show ?thesis
    using h layout_grid_in_key_order [OF h] unfolding e by simp
qed

section \<open>Repeated declarations\<close>

text \<open>
  C2 with the label updated does not hold. A second declaration of an identifier does not
  change the label: after the labels \<open>one\<close> and \<open>two\<close> for \<open>a\<close> the node shows
  \<open>one\<close>.
\<close>

theorem redeclared_label_counterexample:
  "node_decls ''\"a\" [label=\"one\"];\<newline>\"a\" [label=\"two\"];'' = [(''a'', ''one''), (''a'', ''two'')] \<and>
   node_text (parseDotFile (\<lambda>s. 1) ''\"a\" [label=\"one\"];\<newline>\"a\" [label=\"two\"];'' GraphView_new) ''a''
     = Some ''one'' \<and>
   node_text (parseDotFile (\<lambda>s. 1) ''\"a\" [label=\"one\"];\<newline>\"a\" [label=\"two\"];'' GraphView_new) ''a''
     \<noteq> Some ''two''"
  by code_simp

text \<open>
  C2, as the code has it: \<open>createNode\<close> for an identifier that is already in the node map
  returns the view as it is. So when an identifier is declared more than once the node map
  has exactly one entry for it, the node shows the label of the first declaration, and
  its cell in the grid is the number of declared identifiers below it, which no later
  declaration of the same identifier changes.
\<close>

theorem redeclared_node_keeps_first_label:
  "(map_of (m_nodes u) ident \<noteq> None \<longrightarrow> snd (createNode ident label' u) = u) \<and>
   (map_of (node_decls content) ident = Some label \<longrightarrow>
      length (filter (\<lambda>e. fst e = ident) (m_nodes (parseDotFile fit content v))) = 1 \<and>
      node_text (parseDotFile fit content v) ident = Some (displayLabel label) \<and>
      node_pos (parseDotFile fit content v) ident
        = Some (real (card {i \<in> fst ` set (node_decls content). i < ident} mod 5) * 200,
                real (card {i \<in> fst ` set (node_decls content). i < ident} div 5) * 80))"
proof (intro conjI impI)
  assume "map_of (m_nodes u) ident \<noteq> None"
  then have "ident \<in> fst ` set (m_nodes u)" by (simp add: map_of_None_keys)
  then show "snd (createNode ident label' u) = u" by (rule createNode_known)
next
  assume first: "map_of (node_decls content) ident = Some label"
  let ?P = "parseDotFile fit content v"
  obtain j where j: "j < length (m_nodes ?P)"
    and ptr: "map_of (m_nodes ?P) ident = Some (snd (m_nodes ?P ! j))"
    and item: "m_scene ?P ! snd (m_nodes ?P ! j) = EllipseItem (grid j) (displayLabel label)"
    and rank: "card {i \<in> fst ` set (node_decls content). i < ident} = j"
    using parse_declared_node [OF first, of fit v] by blast
  have "map fst (m_nodes ?P) = sorted_list_of_set (fst ` set (node_decls content))"
    by (simp only: parse_nodes parse_core_keys)
  then have d: "distinct (map fst (m_nodes ?P))" by simp
  have mem: "ident \<in> fst ` set (m_nodes ?P)"
    using ptr by (metis map_of_None_keys option.distinct(1))
  show "length (filter (\<lambda>e. fst e = ident) (m_nodes ?P)) = 1"
    using d mem by (rule filter_key_once)
  show "node_text ?P ident = Some (displayLabel label)"
    using ptr item by (simp add: node_text_def)
  show "node_pos ?P ident
        = Some (real (card {i \<in> fst ` set (node_decls content). i < ident} mod 5) * 200,
                real (card {i \<in> fst ` set (node_decls content). i < ident} div 5) * 80)"
    unfolding rank using ptr item by (simp add: node_pos_def grid_def)
qed

theorem redeclared_node_keeps_first_label_witness:
  "map_of (node_decls ''\"a\" [label=\"one\"];\<newline>\"a\" [label=\"two\"];'') ''a'' = Some ''one'' \<and>
   length (filter (\<lambda>e. fst e = ''a'')
     (m_nodes (parseDotFile (\<lambda>s. 1) ''\"a\" [label=\"one\"];\<newline>\"a\" [label=\"two\"];'' GraphView_new))) = 1 \<and>
   node_text (parseDotFile (\<lambda>s. 1) ''\"a\" [label=\"one\"];\<newline>\"a\" [label=\"two\"];'' GraphView_new) ''a''
     = Some ''one'' \<and>
   snd (createNode ''a'' ''two''
          (parseDotFile (\<lambda>s. 1) ''\"a\" [label=\"one\"];\<newline>\"a\" [label=\"two\"];'' GraphView_new))
     = parseDotFile (\<lambda>s. 1) ''\"a\" [label=\"one\"];\<newline>\"a\" [label=\"two\"];'' GraphView_new"
proof -
  have h1: "map_of (node_decls ''\"a\" [label=\"one\"];\<newline>\"a\" [label=\"two\"];'') ''a'' = Some ''one''"
    by code_simp
  have h2: "map_of (m_nodes (parseDotFile (\<lambda>s. 1) ''\"a\" [label=\"one\"];\<newline>\"a\" [label=\"two\"];'' GraphView_new)) ''a''
              \<noteq> None"
    by code_simp
  have h3: "displayLabel ''one'' = ''one''" by code_simp
  show ?thesis
    using h1 h2 h3
      redeclared_node_keeps_first_label
        [where u = "parseDotFile (\<lambda>s. 1) ''\"a\" [label=\"one\"];\<newline>\"a\" [label=\"two\"];'' GraphView_new"
           and ident = "''a''" and label' = "''two''"
           and content = "''\"a\" [label=\"one\"];\<newline>\"a\" [label=\"two\"];''"
           and label = "''one''" and fit = "\<lambda>s. 1" and v = GraphView_new]
    by simp
qed

section \<open>Counts of nodes and edges\<close>

text \<open>
  C3: after \<open>parseDotFile\<close> the number of nodes is the number of distinct identifiers
  among the node declarations, the node set is the set of those identifiers, and the
  number of line items in the scene is the number of edge declarations with both end
  points in that final node set, wherever in the text the nodes are declared; an edge
  declaration with an end point outside the node set adds nothing.
\<close>

theorem parse_counts:
  "length (m_nodes (parseDotFile fit content v)) = card (fst ` set (node_decls content)) \<and>
   fst ` set (m_nodes (parseDotFile fit content v)) = fst ` set (node_decls content) \<and>
   length (filter is_line (m_scene (parseDotFile fit content v)))
     = length (filter (\<lambda>e. fst e \<in> fst ` set (m_nodes (parseDotFile fit content v)) \<and>
                            snd e \<in> fst ` set (m_nodes (parseDotFile fit content v)))
                      (edge_decls content))"
proof -
  let ?P = "parseDotFile fit content v"
  let ?K = "fst ` set (node_decls content)"
  have keys: "map fst (m_nodes ?P) = sorted_list_of_set ?K"
    by (simp only: parse_nodes parse_core_keys)
  have "length (map fst (m_nodes ?P)) = card ?K"
    unfolding keys by simp
  then have n: "length (m_nodes ?P) = card ?K" by simp
  have "set (map fst (m_nodes ?P)) = ?K" unfolding keys by simp
  then have ks: "fst ` set (m_nodes ?P) = ?K" by simp
  have "length (filter is_line (m_scene ?P))
     = length (filter (\<lambda>e. fst e \<in> ?K \<and> snd e \<in> ?K) (edge_decls content))"
  proof (cases "node_decls content = []")
    case True
    then show ?thesis
      by (simp add: parse_empty showPlaceholder_def clear_def setSceneRect_def Let_def)
  next
    case False
    then have "m_nodes (parse_core content v) \<noteq> []" by (simp add: parse_core_nodes_empty_iff)
    then show ?thesis by (simp add: parse_scene parse_core_lines)
  qed
  with n ks show ?thesis by simp
qed

theorem parse_counts_witness:
  "edge_decls ''\"a\" -> \"b\";\<newline>\"a\" [label=\"main\"];\<newline>\"b\" [label=\"helper\"];\<newline>\"a\" -> \"c\";''
     = [(''a'', ''b''), (''a'', ''c'')] \<and>
   length (m_nodes (parseDotFile (\<lambda>s. 1)
      ''\"a\" -> \"b\";\<newline>\"a\" [label=\"main\"];\<newline>\"b\" [label=\"helper\"];\<newline>\"a\" -> \"c\";'' GraphView_new)) = 2 \<and>
   length (filter is_line (m_scene (parseDotFile (\<lambda>s. 1)
      ''\"a\" -> \"b\";\<newline>\"a\" [label=\"main\"];\<newline>\"b\" [label=\"helper\"];\<newline>\"a\" -> \"c\";'' GraphView_new))) = 1"
proof -
  have e: "edge_decls ''\"a\" -> \"b\";\<newline>\"a\" [label=\"main\"];\<newline>\"b\" [label=\"helper\"];\<newline>\"a\" -> \"c\";''
     = [(''a'', ''b''), (''a'', ''c'')]"
    by code_simp
  have n: "fst ` set (node_decls ''\"a\" -> \"b\";\<newline>\"a\" [label=\"main\"];\<newline>\"b\" [label=\"helper\"];\<newline>\"a\" -> \"c\";'')
     = {''a'', ''b''}"
    by code_simp
  show ?thesis
    using parse_counts [of "\<lambda>s. 1"
        "''\"a\" -> \"b\";\<newline>\"a\" [label=\"main\"];\<newline>\"b\" [label=\"helper\"];\<newline>\"a\" -> \"c\";''"
        GraphView_new]
    unfolding e n by simp
qed

section \<open>A text with no node\<close>

text \<open>
  C4: when the loop over the lines leaves the node map empty, \<open>parseDotFile\<close> ends like
  \<open>showPlaceholder\<close> with the message \<open>No nodes found in the call graph\<close>: the message is
  the only item of the scene, no edge is drawn, and the view is not fitted, its scale
  staying what it was.
\<close>

theorem empty_graph_placeholder:
  "m_nodes (fst (parse_lines (split_lines content) (clear v, []))) = [] \<Longrightarrow>
   parseDotFile fit content v = showPlaceholder ''No nodes found in the call graph'' v \<and>
   m_scene (parseDotFile fit content v) = [TextItem ''No nodes found in the call graph''] \<and>
   m_placeholderText (parseDotFile fit content v) = Some 0 \<and>
   m_nodes (parseDotFile fit content v) = [] \<and>
   filter is_line (m_scene (parseDotFile fit content v)) = [] \<and>
   m11 (parseDotFile fit content v) = m11 v \<and>
   m22 (parseDotFile fit content v) = m22 v \<and>
   sceneRect_margin (parseDotFile fit content v) = 100"
proof -
  assume "m_nodes (fst (parse_lines (split_lines content) (clear v, []))) = []"
  then have "node_decls content = []"
    by (simp add: parse_loop_nodes parse_core_nodes_empty_iff)
  then have "parseDotFile fit content v = showPlaceholder ''No nodes found in the call graph'' v"
    by (rule parse_empty)
  then show ?thesis by (simp add: showPlaceholder_fields)
qed

theorem empty_graph_placeholder_witness:
  "m_nodes (fst (parse_lines (split_lines ''\"x\" -> \"y\";'') (clear GraphView_new, []))) = [] \<and>
   snd (parse_lines (split_lines ''\"x\" -> \"y\";'') (clear GraphView_new, [])) = [(''x'', ''y'')] \<and>
   m_scene (parseDotFile (\<lambda>s. 2) ''\"x\" -> \"y\";'' GraphView_new)
     = [TextItem ''No nodes found in the call graph''] \<and>
   m11 (parseDotFile (\<lambda>s. 2) ''\"x\" -> \"y\";'' GraphView_new) = 1"
proof -
  have h: "m_nodes (fst (parse_lines (split_lines ''\"x\" -> \"y\";'') (clear GraphView_new, []))) = []"
    by code_simp
  have e: "snd (parse_lines (split_lines ''\"x\" -> \"y\";'') (clear GraphView_new, [])) = [(''x'', ''y'')]"
    by code_simp
  have m: "m11 GraphView_new = 1"
    by (simp add: GraphView_new_def showPlaceholder_fields)
  show ?thesis
    using h e m empty_graph_placeholder [OF h, of "\<lambda>s. 2"]
    by (simp add: showPlaceholder_fields)
qed

section \<open>Files that cannot be opened\<close>

text \<open>
  C5: when the file at the path cannot be opened for reading, \<open>loadDotFile\<close> leaves the
  view showing only the message \<open>Failed to open output file:\<close> followed by the path,
  with no node, and \<open>open\<close> was called once, on that path.
\<close>

theorem open_failure_placeholder:
  "fs_text fs filePath = None \<Longrightarrow>
   m_scene (snd (loadDotFile fit filePath (fs, v)))
     = [TextItem (''Failed to open output file:\<newline>'' @ filePath)] \<and>
   m_placeholderText (snd (loadDotFile fit filePath (fs, v))) = Some 0 \<and>
   m_nodes (snd (loadDotFile fit filePath (fs, v))) = [] \<and>
   fs_opened (fst (loadDotFile fit filePath (fs, v))) = fs_opened fs @ [filePath]"
proof -
  assume closed: "fs_text fs filePath = None"
  have op: "QFile_open filePath fs = (None, fs\<lparr>fs_opened := fs_opened fs @ [filePath]\<rparr>)"
    using closed by (simp add: QFile_open_def)
  have "loadDotFile fit filePath (fs, v) =
          (fs\<lparr>fs_opened := fs_opened fs @ [filePath]\<rparr>,
           showPlaceholder (''Failed to open output file:\<newline>'' @ filePath) v)"
    by (simp add: loadDotFile_def op)
  then show ?thesis by (simp add: showPlaceholder_fields)
qed

theorem open_failure_placeholder_witness:
  "fs_text \<lparr>fs_text = (\<lambda>p. None), fs_opened = []\<rparr> ''/tmp/missing.dot'' = None \<and>
   m_scene (snd (loadDotFile (\<lambda>s. 1) ''/tmp/missing.dot''
            (\<lparr>fs_text = (\<lambda>p. None), fs_opened = []\<rparr>, GraphView_new)))
     = [TextItem ''Failed to open output file:\<newline>/tmp/missing.dot''] \<and>
   m_nodes (snd (loadDotFile (\<lambda>s. 1) ''/tmp/missing.dot''
            (\<lparr>fs_text = (\<lambda>p. None), fs_opened = []\<rparr>, GraphView_new))) = [] \<and>
   fs_opened (fst (loadDotFile (\<lambda>s. 1) ''/tmp/missing.dot''
            (\<lparr>fs_text = (\<lambda>p. None), fs_opened = []\<rparr>, GraphView_new))) = [''/tmp/missing.dot'']"
  using open_failure_placeholder
    [of "\<lparr>fs_text = (\<lambda>p. None), fs_opened = []\<rparr>" "''/tmp/missing.dot''" "\<lambda>s. 1" GraphView_new]
  by simp

section \<open>Label text\<close>

text \<open>
  C6: the text shown for a node is the label itself when the label has at most 20
  characters, and the marker \<open>...\<close> followed by exactly the last 20 characters of the
  label when it is longer. This is the text of the item that \<open>createNode\<close> adds for a
  new identifier, and the text that every declared node shows after \<open>parseDotFile\<close>, for
  the label of its first declaration.
\<close>

theorem label_truncation:
  "(length label \<le> 20 \<longrightarrow> displayLabel label = label) \<and>
   (20 < length label \<longrightarrow>
      displayLabel label = ''...'' @ drop (length label - 20) label \<and>
      length (drop (length label - 20) label) = 20) \<and>
   (map_of (m_nodes u) ident = None \<longrightarrow>
      text_of (m_scene (snd (createNode ident label u)) ! fst (createNode ident label u))
        = Some (displayLabel label)) \<and>
   (map_of (node_decls content) ident = Some label \<longrightarrow>
      node_text (parseDotFile fit content v) ident = Some (displayLabel label))"
proof (intro conjI impI)
  assume "length label \<le> 20"
  then show "displayLabel label = label" by (simp add: displayLabel_cases)
next
  assume "20 < length label"
  then show "displayLabel label = ''...'' @ drop (length label - 20) label"
    by (simp add: displayLabel_cases)
next
  assume "20 < length label"
  then show "length (drop (length label - 20) label) = 20" by simp
next
  assume "map_of (m_nodes u) ident = None"
  then show "text_of (m_scene (snd (createNode ident label u)) ! fst (createNode ident label u))
        = Some (displayLabel label)"
    by (simp add: createNode_def Let_def)
next
  assume first: "map_of (node_decls content) ident = Some label"
  let ?P = "parseDotFile fit content v"
  obtain j where "map_of (m_nodes ?P) ident = Some (snd (m_nodes ?P ! j))"
    and "m_scene ?P ! snd (m_nodes ?P ! j) = EllipseItem (grid j) (displayLabel label)"
    using parse_declared_node [OF first, of fit v] by blast
  then show "node_text ?P ident = Some (displayLabel label)"
    by (simp add: node_text_def)
qed

theorem label_truncation_witness:
  "displayLabel ''helper'' = ''helper'' \<and>
   displayLabel ''this_is_a_very_long_function_name_example'' = ''...unction_name_example'' \<and>
   node_text (parseDotFile (\<lambda>s. 1) ''\"a\" [label=\"this_is_a_very_long_function_name_example\"];'' GraphView_new) ''a''
     = Some ''...unction_name_example'' \<and>
   text_of (m_scene (snd (createNode ''b'' ''helper'' (clear GraphView_new)))
            ! fst (createNode ''b'' ''helper'' (clear GraphView_new)))
     = Some ''helper''"
proof -
  have d: "map_of (node_decls ''\"a\" [label=\"this_is_a_very_long_function_name_example\"];'') ''a''
             = Some ''this_is_a_very_long_function_name_example''"
    by code_simp
  have n: "map_of (m_nodes (clear GraphView_new)) ''b'' = None"
    by (simp add: clear_def)
  have l: "length ''this_is_a_very_long_function_name_example'' = 41" by simp
  show ?thesis
    using d n
      label_truncation [where label = "''helper''" and u = "clear GraphView_new" and ident = "''b''"
        and content = "[]" and fit = "\<lambda>s. 1" and v = GraphView_new]
      label_truncation [where label = "''this_is_a_very_long_function_name_example''"
        and u = "clear GraphView_new" and ident = "''a''"
        and content = "''\"a\" [label=\"this_is_a_very_long_function_name_example\"];''"
        and fit = "\<lambda>s. 1" and v = GraphView_new]
    by simp
qed

section \<open>Wheel zoom\<close>





section \<open>The two states of the scene\<close>

text \<open>
  C8 does not hold for \<open>clear\<close>: after it the scene is in neither state, with no node
  and no message.
\<close>

theorem clear_leaves_neither_state_counterexample:
  "\<not> placeholder_state (clear GraphView_new) \<and> \<not> graph_state (clear GraphView_new)"
  by (simp add: placeholder_state_def graph_state_def clear_def)

text \<open>
  C8, as the code has it: no scene is in both states; after \<open>showPlaceholder\<close> the scene
  is in the placeholder state,
  after \<open>loadDotFile\<close> it is in exactly one of the placeholder state and the graph state,
  and both give the same result on a view cleared beforehand, so nothing of the previous
  scene is left; after \<open>clear\<close> the scene is empty, with no node, no item and no message.
\<close>

theorem scene_state_after_operations:
  "\<not> (placeholder_state u \<and> graph_state u) \<and>
   (placeholder_state (showPlaceholder message v) \<and> \<not> graph_state (showPlaceholder message v)) \<and>
   ((placeholder_state (snd (loadDotFile fit filePath (fs, v))) \<and>
       \<not> graph_state (snd (loadDotFile fit filePath (fs, v)))) \<or>
    (graph_state (snd (loadDotFile fit filePath (fs, v))) \<and>
       \<not> placeholder_state (snd (loadDotFile fit filePath (fs, v))))) \<and>
   showPlaceholder message (clear v) = showPlaceholder message v \<and>
   loadDotFile fit filePath (fs, clear v) = loadDotFile fit filePath (fs, v) \<and>
   m_scene (clear v) = [] \<and> m_nodes (clear v) = [] \<and> m_placeholderText (clear v) = None"
proof -
  have load: "(placeholder_state (snd (loadDotFile fit filePath (fs, v))) \<and>
       \<not> graph_state (snd (loadDotFile fit filePath (fs, v)))) \<or>
    (graph_state (snd (loadDotFile fit filePath (fs, v))) \<and>
       \<not> placeholder_state (snd (loadDotFile fit filePath (fs, v))))"
  proof (cases "fs_text fs filePath")
    case None
    then show ?thesis by (simp add: loadDotFile_def QFile_open_def showPlaceholder_state)
  next
    case (Some content)
    then show ?thesis
      using parse_state [of fit content v] by (simp add: loadDotFile_def QFile_open_def)
  qed
  have sp: "showPlaceholder msg (clear v) = showPlaceholder msg v" for msg
    by (simp add: showPlaceholder_def clear_def)
  have pd: "parseDotFile fit content (clear v) = parseDotFile fit content v" for content
    by (simp add: parseDotFile_def clear_clear)
  have ld: "loadDotFile fit filePath (fs, clear v) = loadDotFile fit filePath (fs, v)"
    by (cases "fs_text fs filePath") (simp_all add: loadDotFile_def QFile_open_def sp pd)
  have ex: "\<not> (placeholder_state u \<and> graph_state u)"
    by (simp add: placeholder_state_def graph_state_def)
  show ?thesis
    using ex load sp ld by (simp add: showPlaceholder_state clear_def)
qed

theorem scene_state_after_operations_witness:
  "placeholder_state (showPlaceholder ''hello'' GraphView_new) \<and>
   graph_state (snd (loadDotFile (\<lambda>s. 1) ''graph.dot''
      (\<lparr>fs_text = (\<lambda>p. if p = ''graph.dot'' then Some ''\"a\" [label=\"main\"];'' else None),
        fs_opened = []\<rparr>, GraphView_new))) \<and>
   \<not> placeholder_state (snd (loadDotFile (\<lambda>s. 1) ''graph.dot''
      (\<lparr>fs_text = (\<lambda>p. if p = ''graph.dot'' then Some ''\"a\" [label=\"main\"];'' else None),
        fs_opened = []\<rparr>, GraphView_new)))"
proof -
  have g: "m_nodes (snd (loadDotFile (\<lambda>s. 1) ''graph.dot''
      (\<lparr>fs_text = (\<lambda>p. if p = ''graph.dot'' then Some ''\"a\" [label=\"main\"];'' else None),
        fs_opened = []\<rparr>, GraphView_new))) \<noteq> []"
    by code_simp
  show ?thesis
    using g scene_state_after_operations
      [where message = "''hello''" and v = GraphView_new and fit = "\<lambda>s. 1"
         and filePath = "''graph.dot''"
         and fs = "\<lparr>fs_text = (\<lambda>p. if p = ''graph.dot'' then Some ''\"a\" [label=\"main\"];'' else None),
                    fs_opened = []\<rparr>"]
    by (auto simp: placeholder_state_def)
qed

section \<open>Lines with an arrow and a label\<close>



end
